theory Spec2Isabelle
  imports Complex_Main "HOL-Library.Char_ord" "HOL-Library.List_Lexorder"
begin

section \<open>JavaScript numbers\<close>

text \<open>
  A JavaScript number is a binary64 value: a finite value, one of the two infinities,
  or NaN. Finite values are modelled by the real number they denote; the two zeros are
  not distinguished. Every arithmetic operation of the language computes the exact
  result and rounds it to a number; that rounding is the parameter \<open>rnd\<close> of the
  operations below (a function from the exact real result to a number, which may
  overflow to an infinity). The rounding of the language is \<open>binary64\<close>, defined
  below; what is proved for every \<open>rnd\<close> holds of it.
\<close>

datatype jsnum = Num real | PosInf | NegInf | NaN

type_synonym rounding = "real \<Rightarrow> jsnum"

definition signed_inf :: "bool \<Rightarrow> jsnum" where
  "signed_inf positive = (if positive then PosInf else NegInf)"

text \<open>
  The rounding of the language itself: to the nearest binary64 number, a tie to the one
  with the even significand (IEEE 754, round to nearest, ties to even). \<open>e\<close> is the
  exponent of \<open>x\<close>, not below that of the subnormal numbers, and \<open>u\<close> the distance
  between the binary64 numbers around \<open>x\<close>; a result of magnitude \<open>2 ^ 1024\<close> or more
  overflows to an infinity.
\<close>

definition round_half_even :: "real \<Rightarrow> int" where
  "round_half_even r =
     (let f = \<lfloor>r\<rfloor>; d = r - of_int f
      in if d < 1 / 2 then f else if 1 / 2 < d then f + 1 else if even f then f else f + 1)"

definition binary64 :: rounding where
  "binary64 x =
     (if x = 0 then Num 0
      else
        let e = max \<lfloor>log 2 \<bar>x\<bar>\<rfloor> (- 1022);
            u = 2 powi (e - 52);
            y = of_int (round_half_even (x / u)) * u
        in if 2 ^ 1024 \<le> \<bar>y\<bar> then signed_inf (0 < x) else Num y)"

fun isFinite :: "jsnum \<Rightarrow> bool" where
  "isFinite (Num r) = True"
| "isFinite PosInf = False"
| "isFinite NegInf = False"
| "isFinite NaN = False"

text \<open>\<open>x + y\<close>: opposite infinities give NaN.\<close>

fun js_add :: "rounding \<Rightarrow> jsnum \<Rightarrow> jsnum \<Rightarrow> jsnum" where
  "js_add rnd NaN y = NaN"
| "js_add rnd x NaN = NaN"
| "js_add rnd PosInf NegInf = NaN"
| "js_add rnd NegInf PosInf = NaN"
| "js_add rnd PosInf y = PosInf"
| "js_add rnd NegInf y = NegInf"
| "js_add rnd x PosInf = PosInf"
| "js_add rnd x NegInf = NegInf"
| "js_add rnd (Num a) (Num b) = rnd (a + b)"

fun js_neg :: "jsnum \<Rightarrow> jsnum" where
  "js_neg (Num a) = Num (- a)"
| "js_neg PosInf = NegInf"
| "js_neg NegInf = PosInf"
| "js_neg NaN = NaN"

text \<open>\<open>x - y\<close> is \<open>x + (-y)\<close>, rounded once.\<close>

definition js_sub :: "rounding \<Rightarrow> jsnum \<Rightarrow> jsnum \<Rightarrow> jsnum" where
  "js_sub rnd x y = js_add rnd x (js_neg y)"

text \<open>The sign of a number: \<open>None\<close> for NaN and for zero.\<close>

fun js_sign :: "jsnum \<Rightarrow> bool option" where
  "js_sign (Num a) = (if a = 0 then None else Some (0 < a))"
| "js_sign PosInf = Some True"
| "js_sign NegInf = Some False"
| "js_sign NaN = None"

text \<open>\<open>x * y\<close>: an infinity times zero is NaN.\<close>

fun js_mul :: "rounding \<Rightarrow> jsnum \<Rightarrow> jsnum \<Rightarrow> jsnum" where
  "js_mul rnd NaN y = NaN"
| "js_mul rnd x NaN = NaN"
| "js_mul rnd (Num a) (Num b) = rnd (a * b)"
| "js_mul rnd x y =
     (case (js_sign x, js_sign y) of
        (Some s, Some t) \<Rightarrow> signed_inf (s = t)
      | _ \<Rightarrow> NaN)"

text \<open>
  \<open>x / y\<close>: a finite non-zero number divided by zero is an infinity (with the sign of
  the numerator, the zero taken as positive), zero by zero and infinity by infinity are
  NaN, a finite number by an infinity is zero.
\<close>

fun js_div :: "rounding \<Rightarrow> jsnum \<Rightarrow> jsnum \<Rightarrow> jsnum" where
  "js_div rnd NaN y = NaN"
| "js_div rnd x NaN = NaN"
| "js_div rnd (Num a) (Num b) =
     (if b = 0 then (if a = 0 then NaN else signed_inf (0 < a)) else rnd (a / b))"
| "js_div rnd (Num a) y = Num 0"
| "js_div rnd x (Num b) =
     (case js_sign x of Some s \<Rightarrow> signed_inf (s = (0 \<le> b)) | None \<Rightarrow> NaN)"
| "js_div rnd x y = NaN"

text \<open>\<open>Math.sqrt\<close>: NaN below zero.\<close>

fun js_sqrt :: "rounding \<Rightarrow> jsnum \<Rightarrow> jsnum" where
  "js_sqrt rnd (Num a) = (if a < 0 then NaN else rnd (sqrt a))"
| "js_sqrt rnd PosInf = PosInf"
| "js_sqrt rnd NegInf = NaN"
| "js_sqrt rnd NaN = NaN"

text \<open>\<open>x === y\<close> on numbers: NaN is equal to nothing, itself included.\<close>

definition js_strict_eq :: "jsnum \<Rightarrow> jsnum \<Rightarrow> bool" where
  "js_strict_eq x y = (x \<noteq> NaN \<and> y \<noteq> NaN \<and> x = y)"

section \<open>Values and rows\<close>

text \<open>
  The cells of a table row are numbers, strings (the date) or null. A row is an object:
  a finite map from property names to values, \<open>None\<close> where the property is absent
  (reading it gives \<open>undefined\<close>).
\<close>

datatype jsval = JNum jsnum | JStr string | JNull

type_synonym row = "string \<rightharpoonup> jsval"

text \<open>\<open>typeof v === "number" && isFinite(v)\<close>\<close>

fun finite_number :: "jsval option \<Rightarrow> bool" where
  "finite_number (Some (JNum x)) = isFinite x"
| "finite_number v = False"

text \<open>
  \<open>r[k] as number\<close>: the cast does nothing at run time. The columns are only built
  from rows that passed \<open>finite_number\<close> at \<open>k\<close>, where the cell is a number.
\<close>

fun as_number :: "jsval option \<Rightarrow> jsnum" where
  "as_number (Some (JNum x)) = x"
| "as_number v = NaN"

section \<open>The correlation matrix\<close>

text \<open>
  One round of the loop of \<open>corr\<close>: the state is \<open>(num, da, db)\<close>.
\<close>

definition corr_step ::
  "rounding \<Rightarrow> jsnum list \<Rightarrow> jsnum list \<Rightarrow> jsnum \<Rightarrow> jsnum \<Rightarrow>
   jsnum \<times> jsnum \<times> jsnum \<Rightarrow> nat \<Rightarrow> jsnum \<times> jsnum \<times> jsnum" where
  "corr_step rnd a b ma mb st i =
     (case st of (num, da, db) \<Rightarrow>
        let xa = js_sub rnd (a ! i) ma;
            xb = js_sub rnd (b ! i) mb
        in (js_add rnd num (js_mul rnd xa xb),
            js_add rnd da (js_mul rnd xa xa),
            js_add rnd db (js_mul rnd xb xb)))"

definition corr :: "rounding \<Rightarrow> jsnum list \<Rightarrow> jsnum list \<Rightarrow> jsnum" where
  "corr rnd a b =
     (let n = min (length a) (length b) in
      if n < 3 then NaN
      else
        let ma = js_div rnd (foldl (js_add rnd) (Num 0) a) (Num (real n));
            mb = js_div rnd (foldl (js_add rnd) (Num 0) b) (Num (real n))
        in case foldl (corr_step rnd a b ma mb) (Num 0, Num 0, Num 0) [0..<n] of
             (num, da, db) \<Rightarrow>
               let den = js_sqrt rnd (js_mul rnd da db)
               in if js_strict_eq den (Num 0) then NaN else js_div rnd num den)"

definition valid_rows :: "row list \<Rightarrow> string list \<Rightarrow> row list" where
  "valid_rows rows keys = filter (\<lambda>r. list_all (\<lambda>k. finite_number (r k)) keys) rows"

definition columns :: "row list \<Rightarrow> string list \<Rightarrow> jsnum list list" where
  "columns valid keys = map (\<lambda>k. map (\<lambda>r. as_number (r k)) valid) keys"

definition correlationMatrix :: "rounding \<Rightarrow> row list \<Rightarrow> string list \<Rightarrow> jsnum list list" where
  "correlationMatrix rnd rows keys =
     (let valid = valid_rows rows keys;
          cols = columns valid keys
      in map (\<lambda>i. map (\<lambda>j. corr rnd (cols ! i) (cols ! j)) [0..<length keys])
           [0..<length keys])"

section \<open>Series and resampling\<close>

text \<open>
  \<open>type SeriesPoint = { date: string; value: number }\<close>; the field \<open>value\<close> is
  \<open>val\<close> here. Strings are lists of characters, compared as JavaScript compares
  strings with \<open><\<close>: code unit by code unit, a proper prefix first (the order of
  \<open>HOL-Library.List_Lexorder\<close> over \<open>HOL-Library.Char_ord\<close>).
\<close>

record point =
  date :: string
  val :: jsnum

datatype resample_method = Avg | Last

text \<open>
  \<open>buckets[y] ||= []; buckets[y].push(v)\<close> on an object used as a dictionary: the
  entries are kept in the order in which their keys were first written.
\<close>

fun bucket_push :: "string \<Rightarrow> jsnum \<Rightarrow> (string \<times> jsnum list) list \<Rightarrow> (string \<times> jsnum list) list" where
  "bucket_push y v [] = [(y, [v])]"
| "bucket_push y v ((k, arr) # bs) =
     (if k = y then (k, arr @ [v]) # bs else (k, arr) # bucket_push y v bs)"

text \<open>
  The loop that fills the dictionary,
  \<open>points.forEach((p) => { const k = key(p); buckets[k] ||= []; buckets[k].push(p.value); })\<close>,
  where \<open>key(p)\<close> is \<open>p.date.slice(0, 4)\<close> in \<open>toAnnual\<close> and \<open>p.date.slice(0, 7)\<close>
  in \<open>toMonthly\<close>.
\<close>

definition buckets_of :: "(point \<Rightarrow> string) \<Rightarrow> point list \<Rightarrow> (string \<times> jsnum list) list" where
  "buckets_of key points = foldl (\<lambda>bs p. bucket_push (key p) (val p) bs) [] points"

text \<open>
  \<open>toAnnual\<close>. The entries of \<open>buckets\<close> have pairwise different keys, hence
  pairwise different dates, and on those the comparator
  \<open>(a, b) => (a.date < b.date ? -1 : 1)\<close> is a strict total order: the sorted array
  is the one in ascending order of \<open>date\<close>, whatever order \<open>Object.entries\<close>
  lists the buckets in. A bucket is never empty, so \<open>arr[arr.length - 1]\<close> is its last
  element.
\<close>

definition toAnnual :: "rounding \<Rightarrow> point list \<Rightarrow> resample_method \<Rightarrow> point list" where
  "toAnnual rnd points method =
     (let buckets = buckets_of (\<lambda>p. take 4 (date p)) points;
          out = map (\<lambda>(y, arr).
                  \<lparr>date = y @ ''-12-31'',
                   val = (case method of
                            Avg \<Rightarrow> js_div rnd (foldl (js_add rnd) (Num 0) arr) (Num (real (length arr)))
                          | Last \<Rightarrow> last arr)\<rparr>) buckets
      in sort_key date out)"

text \<open>\<open>toMonthly\<close> has no parameter for the method: it takes the last value.\<close>

definition toMonthly :: "point list \<Rightarrow> point list" where
  "toMonthly points =
     (let buckets = buckets_of (\<lambda>p. take 7 (date p)) points;
          out = map (\<lambda>(ym, arr). \<lparr>date = ym @ ''-28'', val = last arr\<rparr>) buckets
      in sort_key date out)"

section \<open>Year-over-year change\<close>

text \<open>
  \<open>yoyPct\<close>. \<open>Number(s)\<close>, the conversion of a string to a number, is a built-in of
  the language and the parameter \<open>toNumber\<close> here. The dictionary \<open>map\<close> that the
  function fills first is never read, and is left out. \<open>yoy_test\<close> is the test
  \<open>yCurr === yPrev + 1\<close> of the loop, \<open>yoy_value\<close> the value
  \<open>(points[i].value / points[i - 1].value - 1) * 100\<close>, and \<open>yoy_step\<close> one round of
  the loop, for the index \<open>i\<close> (from 1).
\<close>

definition yoy_test :: "rounding \<Rightarrow> (string \<Rightarrow> jsnum) \<Rightarrow> point \<Rightarrow> point \<Rightarrow> bool" where
  "yoy_test rnd toNumber prev cur =
     (let yPrev = toNumber (take 4 (date prev));
          yCurr = toNumber (take 4 (date cur))
      in js_strict_eq yCurr (js_add rnd yPrev (Num 1)))"

definition yoy_value :: "rounding \<Rightarrow> jsnum \<Rightarrow> jsnum \<Rightarrow> jsnum" where
  "yoy_value rnd prev cur = js_mul rnd (js_sub rnd (js_div rnd cur prev) (Num 1)) (Num 100)"

definition yoy_step ::
  "rounding \<Rightarrow> (string \<Rightarrow> jsnum) \<Rightarrow> point list \<Rightarrow> point list \<Rightarrow> nat \<Rightarrow> point list" where
  "yoy_step rnd toNumber points out i =
     (if yoy_test rnd toNumber (points ! (i - 1)) (points ! i)
      then out @ [\<lparr>date = date (points ! i),
                   val = yoy_value rnd (val (points ! (i - 1))) (val (points ! i))\<rparr>]
      else out)"

definition yoyPct :: "rounding \<Rightarrow> (string \<Rightarrow> jsnum) \<Rightarrow> point list \<Rightarrow> point list" where
  "yoyPct rnd toNumber points = foldl (yoy_step rnd toNumber points) [] [1..<length points]"

text \<open>
  The reading of a string of decimal digits, most significant digit first. \<open>Number\<close>
  gives a string of four decimal digits the number it denotes (\<open>reads_years\<close>), and the
  sum of such a number and 1 needs no rounding (\<open>rounds_years\<close>): both hold of the
  language.
\<close>

definition is_digit :: "char \<Rightarrow> bool" where
  "is_digit c = (c \<in> set ''0123456789'')"

definition digit_val :: "char \<Rightarrow> nat" where
  "digit_val c = of_char c - of_char (CHR ''0'')"

definition decimal :: "string \<Rightarrow> nat" where
  "decimal s = foldl (\<lambda>n c. 10 * n + digit_val c) 0 s"

definition rounds_years :: "rounding \<Rightarrow> bool" where
  "rounds_years rnd = (\<forall>n::nat. n \<le> 10000 \<longrightarrow> rnd (real n) = Num (real n))"

definition reads_years :: "(string \<Rightarrow> jsnum) \<Rightarrow> bool" where
  "reads_years toNumber =
     (\<forall>s. length s = 4 \<and> list_all is_digit s \<longrightarrow> toNumber s = Num (real (decimal s)))"

text \<open>
  A conversion that reads the strings of decimal digits, and nothing else: it stands for
  \<open>Number\<close> on the dates of the examples.
\<close>

definition digitsToNumber :: "string \<Rightarrow> jsnum" where
  "digitsToNumber s = (if s \<noteq> [] \<and> list_all is_digit s then Num (real (decimal s)) else NaN)"

text \<open>The calendar year of a point whose date starts with four digits.\<close>

definition year :: "point \<Rightarrow> nat" where
  "year p = decimal (take 4 (date p))"

definition has_year :: "point \<Rightarrow> bool" where
  "has_year p = (4 \<le> length (date p) \<and> list_all is_digit (take 4 (date p)))"

section \<open>Alignment by date\<close>

text \<open>\<open>dates.add(d)\<close> on a \<open>Set\<close>, which keeps its elements in insertion order.\<close>

definition set_add :: "string \<Rightarrow> string list \<Rightarrow> string list" where
  "set_add d ds = (if d \<in> set ds then ds else ds @ [d])"

text \<open>
  \<open>alignByDate\<close>. The argument is an object whose properties are the series: the list
  of its entries, in the order of \<open>Object.entries\<close>, with pairwise different keys.
  \<open>Array.prototype.sort\<close> without a comparator sorts strings in ascending order of
  their code units. A row starts as \<open>{ date: d }\<close> and then gets one property per
  series.
\<close>

definition all_dates :: "(string \<times> point list) list \<Rightarrow> string list" where
  "all_dates series = foldl (\<lambda>ds arr. foldl (\<lambda>ds p. set_add (date p) ds) ds arr) [] (map snd series)"

definition cell_of :: "point list \<Rightarrow> string \<Rightarrow> jsval" where
  "cell_of arr d = (case find (\<lambda>p. date p = d) arr of Some f \<Rightarrow> JNum (val f) | None \<Rightarrow> JNull)"

definition make_row :: "(string \<times> point list) list \<Rightarrow> string \<Rightarrow> row" where
  "make_row series d =
     foldl (\<lambda>row (k, arr). row(k \<mapsto> cell_of arr d)) [''date'' \<mapsto> JStr d] series"

definition alignByDate :: "(string \<times> point list) list \<Rightarrow> row list" where
  "alignByDate series = (let sorted = sort (all_dates series) in map (make_row series) sorted)"

section \<open>The authentication middleware\<close>

text \<open>
  \<open>s.split(c)\<close> for a one-character separator: the pieces between the occurrences of
  \<open>c\<close>, at least one piece.
\<close>

fun split_on :: "char \<Rightarrow> string \<Rightarrow> string list" where
  "split_on c [] = [[]]"
| "split_on c (x # xs) =
     (if x = c then [] # split_on c xs
      else (case split_on c xs of
              w # ws \<Rightarrow> (x # w) # ws
            | [] \<Rightarrow> [[x]]))"

text \<open>Reading an array element; \<open>None\<close> is \<open>undefined\<close>.\<close>

definition element :: "'a list \<Rightarrow> nat \<Rightarrow> 'a option" where
  "element xs i = (if i < length xs then Some (xs ! i) else None)"

text \<open>
  \<open>!s\<close> for a string that may be null or undefined: true of those two and of the
  empty string.
\<close>

fun falsy :: "string option \<Rightarrow> bool" where
  "falsy None = True"
| "falsy (Some s) = (s = [])"

record request =
  authorization :: "string option"

record env =
  BASIC_AUTH_USER :: "string option"
  BASIC_AUTH_PASS :: "string option"

datatype response = Response string nat | NextResponse_next

text \<open>
  \<open>middleware\<close>. \<open>req.headers.get('authorization')\<close> is the field \<open>authorization\<close> of
  the request (\<open>None\<close> for \<open>null\<close>); \<open>Buffer.from(encoded, 'base64').toString()\<close> is a
  library function and the parameter \<open>decode\<close>; \<open>process.env\<close> is the parameter
  \<open>env\<close>.
\<close>

definition middleware :: "(string \<Rightarrow> string) \<Rightarrow> env \<Rightarrow> request \<Rightarrow> response" where
  "middleware decode env req =
     (let auth = authorization req in
      if falsy auth then Response ''Authentication required'' 401
      else
        let parts = split_on (CHR '' '') (the auth);
            scheme = element parts 0;
            encoded = element parts 1
        in if scheme \<noteq> Some ''Basic'' \<or> falsy encoded
           then Response ''Authentication required'' 401
           else
             let fields = split_on (CHR '':'') (decode (the encoded));
                 user = element fields 0;
                 pass = element fields 1
             in if user \<noteq> BASIC_AUTH_USER env \<or> pass \<noteq> BASIC_AUTH_PASS env
                then Response ''Invalid credentials'' 403
                else NextResponse_next)"

section \<open>Pearson's correlation, operation by operation\<close>

text \<open>\<open>real_of\<close> reads the real number a cell holds.\<close>

fun real_of :: "jsval option \<Rightarrow> real" where
  "real_of (Some (JNum (Num r))) = r"
| "real_of v = 0"

text \<open>
  The correlation of two lists of reals of the same length, as the specification words
  it: compute the means, the centered sums of squares and the centered sum of products,
  and divide the latter by the square root of the product of the two centered sums of
  squares. Every operation is one operation of the arithmetic, rounded by \<open>rnd\<close>, and
  a sum adds its terms from the left, starting from 0. The correlation is undefined
  (NaN) for fewer than three samples and when the denominator is zero.
\<close>

definition rounded_sum :: "rounding \<Rightarrow> jsnum list \<Rightarrow> jsnum" where
  "rounded_sum rnd vs = foldl (js_add rnd) (Num 0) vs"

definition rounded_mean :: "rounding \<Rightarrow> real list \<Rightarrow> jsnum" where
  "rounded_mean rnd xs = js_div rnd (rounded_sum rnd (map Num xs)) (Num (real (length xs)))"

definition deviations :: "rounding \<Rightarrow> real list \<Rightarrow> jsnum list" where
  "deviations rnd xs = map (\<lambda>x. js_sub rnd (Num x) (rounded_mean rnd xs)) xs"

definition centered_squares :: "rounding \<Rightarrow> real list \<Rightarrow> jsnum" where
  "centered_squares rnd xs = rounded_sum rnd (map (\<lambda>d. js_mul rnd d d) (deviations rnd xs))"

definition centered_products :: "rounding \<Rightarrow> real list \<Rightarrow> real list \<Rightarrow> jsnum" where
  "centered_products rnd xs ys =
     rounded_sum rnd (map (\<lambda>(d, d'). js_mul rnd d d') (zip (deviations rnd xs) (deviations rnd ys)))"

definition pearson :: "rounding \<Rightarrow> real list \<Rightarrow> real list \<Rightarrow> jsnum" where
  "pearson rnd xs ys =
     (if length xs < 3 then NaN
      else
        let den = js_sqrt rnd (js_mul rnd (centered_squares rnd xs) (centered_squares rnd ys))
        in if den = Num 0 then NaN else js_div rnd (centered_products rnd xs ys) den)"

text \<open>
  The state \<open>(num, da, db)\<close> of the loop of \<open>corr\<close> with the two sums of squares
  exchanged: the state the loop is in when the two arguments are exchanged.
\<close>

fun swap_acc :: "jsnum \<times> jsnum \<times> jsnum \<Rightarrow> jsnum \<times> jsnum \<times> jsnum" where
  "swap_acc (num, da, db) = (num, db, da)"

section \<open>Constant series over the reals\<close>

text \<open>
  The mean and the centered sum of squares of a list of reals, in the arithmetic of the
  reals: the sum is zero exactly when the list is constant.
\<close>

definition mean :: "real list \<Rightarrow> real" where
  "mean xs = sum_list xs / real (length xs)"

definition css :: "real list \<Rightarrow> real" where
  "css xs = (\<Sum>x\<leftarrow>xs. (x - mean xs)\<^sup>2)"

section \<open>The dates of a map of series\<close>

text \<open>The set of the dates that occur in the series of a map.\<close>

definition dates_of :: "(string \<times> point list) list \<Rightarrow> string set" where
  "dates_of series = (\<Union>(k, arr) \<in> set series. date ` set arr)"

section \<open>The outcomes of the middleware, in words\<close>

text \<open>
  The credentials a request supplies: the header is there, the text before its first
  space (the scheme) is \<open>Basic\<close>, and the text between its first space and the next one
  (the encoded part) is not empty. \<open>None\<close> when no credentials are supplied.
\<close>

definition credentials :: "request \<Rightarrow> string option" where
  "credentials req =
     (case authorization req of
        None \<Rightarrow> None
      | Some auth \<Rightarrow>
          let scheme = takeWhile (\<lambda>x. x \<noteq> CHR '' '') auth;
              rest = dropWhile (\<lambda>x. x \<noteq> CHR '' '') auth;
              encoded = takeWhile (\<lambda>x. x \<noteq> CHR '' '') (tl rest)
          in if scheme = ''Basic'' \<and> encoded \<noteq> [] then Some encoded else None)"

text \<open>
  What the code compares with the two variables of the environment (\<open>authorized\<close>):
  the decoded text up to its first colon, and the text between the first colon and the
  next one, undefined when there is no colon.
\<close>

definition decoded_user :: "string \<Rightarrow> string" where
  "decoded_user text = takeWhile (\<lambda>x. x \<noteq> CHR '':'') text"

definition decoded_pass :: "string \<Rightarrow> string option" where
  "decoded_pass text =
     (if CHR '':'' \<in> set text
      then Some (takeWhile (\<lambda>x. x \<noteq> CHR '':'') (tl (dropWhile (\<lambda>x. x \<noteq> CHR '':'') text)))
      else None)"

text \<open>
  The password a decoded text \<open>user:password\<close> supplies, as the Basic scheme has it:
  all that follows the first colon (a password may itself contain colons).
\<close>

definition supplied_password :: "string \<Rightarrow> string option" where
  "supplied_password text =
     (if CHR '':'' \<in> set text then Some (tl (dropWhile (\<lambda>x. x \<noteq> CHR '':'') text)) else None)"

definition authorized :: "env \<Rightarrow> string \<Rightarrow> bool" where
  "authorized env text =
     (Some (decoded_user text) = BASIC_AUTH_USER env \<and> decoded_pass text = BASIC_AUTH_PASS env)"

section \<open>Example data\<close>

text \<open>
  A table of three dates and three series. \<open>A\<close> and \<open>B\<close> have a value at every
  date, \<open>C\<close> is null at the first.
\<close>

definition row1 :: row where
  "row1 = [''date'' \<mapsto> JStr ''2019-12-31'', ''A'' \<mapsto> JNum (Num 1), ''B'' \<mapsto> JNum (Num 2), ''C'' \<mapsto> JNull]"

definition row2 :: row where
  "row2 = [''date'' \<mapsto> JStr ''2020-12-31'', ''A'' \<mapsto> JNum (Num 2), ''B'' \<mapsto> JNum (Num 4), ''C'' \<mapsto> JNum (Num 1)]"

definition row3 :: row where
  "row3 = [''date'' \<mapsto> JStr ''2021-12-31'', ''A'' \<mapsto> JNum (Num 3), ''B'' \<mapsto> JNum (Num 6), ''C'' \<mapsto> JNum (Num 5)]"

text \<open>
  A table of four dates and three series. \<open>C\<close> is null at the first date. Over the
  other three dates \<open>A\<close> and \<open>B\<close> lie on a line, which their values at the first
  date are far from.
\<close>

definition partial_rows :: "row list" where
  "partial_rows =
     [[''date'' \<mapsto> JStr ''2018-12-31'', ''A'' \<mapsto> JNum (Num 10), ''B'' \<mapsto> JNum (Num 0), ''C'' \<mapsto> JNull],
      [''date'' \<mapsto> JStr ''2019-12-31'', ''A'' \<mapsto> JNum (Num 1), ''B'' \<mapsto> JNum (Num 2), ''C'' \<mapsto> JNum (Num 1)],
      [''date'' \<mapsto> JStr ''2020-12-31'', ''A'' \<mapsto> JNum (Num 2), ''B'' \<mapsto> JNum (Num 4), ''C'' \<mapsto> JNum (Num 5)],
      [''date'' \<mapsto> JStr ''2021-12-31'', ''A'' \<mapsto> JNum (Num 3), ''B'' \<mapsto> JNum (Num 6), ''C'' \<mapsto> JNum (Num 2)]]"

text \<open>
  A table whose series \<open>A\<close> doubles from one date to the next.
\<close>

definition doubling_rows :: "row list" where
  "doubling_rows =
     [[''date'' \<mapsto> JStr ''2019-12-31'', ''A'' \<mapsto> JNum (Num 1)],
      [''date'' \<mapsto> JStr ''2020-12-31'', ''A'' \<mapsto> JNum (Num 2)],
      [''date'' \<mapsto> JStr ''2021-12-31'', ''A'' \<mapsto> JNum (Num 4)]]"

text \<open>A table whose series \<open>A\<close> is constant.\<close>

definition const_rows :: "row list" where
  "const_rows =
     [[''date'' \<mapsto> JStr ''2019-12-31'', ''A'' \<mapsto> JNum (Num 5)],
      [''date'' \<mapsto> JStr ''2020-12-31'', ''A'' \<mapsto> JNum (Num 5)],
      [''date'' \<mapsto> JStr ''2021-12-31'', ''A'' \<mapsto> JNum (Num 5)]]"

text \<open>
  Three tables whose series \<open>A\<close> is not constant. In the first the values are so
  large that their squares overflow; in the second the centered sum of squares is
  \<open>2 ^ 513\<close>, and its square overflows; in the third the centered sum of squares is
  a little less than \<open>2 powi (- 511)\<close>, and its square is below the normal range.
\<close>

definition big_rows :: "row list" where
  "big_rows =
     [[''date'' \<mapsto> JStr ''2019-12-31'', ''A'' \<mapsto> JNum (Num (- (2 ^ 512)))],
      [''date'' \<mapsto> JStr ''2020-12-31'', ''A'' \<mapsto> JNum (Num 0)],
      [''date'' \<mapsto> JStr ''2021-12-31'', ''A'' \<mapsto> JNum (Num (2 ^ 512))]]"

definition large_rows :: "row list" where
  "large_rows =
     [[''date'' \<mapsto> JStr ''2019-12-31'', ''A'' \<mapsto> JNum (Num (- (2 ^ 256)))],
      [''date'' \<mapsto> JStr ''2020-12-31'', ''A'' \<mapsto> JNum (Num 0)],
      [''date'' \<mapsto> JStr ''2021-12-31'', ''A'' \<mapsto> JNum (Num (2 ^ 256))]]"

definition small_rows :: "row list" where
  "small_rows =
     [[''date'' \<mapsto> JStr ''2019-12-31'', ''A'' \<mapsto> JNum (Num 0)],
      [''date'' \<mapsto> JStr ''2020-12-31'', ''A'' \<mapsto> JNum (Num (1 / 2 ^ 257))],
      [''date'' \<mapsto> JStr ''2021-12-31'', ''A'' \<mapsto> JNum (Num (3 / 2 ^ 257))]]"

text \<open>
  The binary64 number nearest to one tenth (what the literal \<open>0.1\<close> denotes), and a
  table whose series \<open>A\<close> is constantly that number.
\<close>

definition tenth :: real where
  "tenth = 3602879701896397 / 36028797018963968"

definition tenth_rows :: "row list" where
  "tenth_rows =
     [[''date'' \<mapsto> JStr ''2019-12-31'', ''A'' \<mapsto> JNum (Num tenth), ''B'' \<mapsto> JNum (Num 1)],
      [''date'' \<mapsto> JStr ''2020-12-31'', ''A'' \<mapsto> JNum (Num tenth), ''B'' \<mapsto> JNum (Num 2)],
      [''date'' \<mapsto> JStr ''2021-12-31'', ''A'' \<mapsto> JNum (Num tenth), ''B'' \<mapsto> JNum (Num 3)]]"

text \<open>Daily points, not in order of date, and two points of one month.\<close>

definition daily :: "point list" where
  "daily =
     [\<lparr>date = ''2020-01-05'', val = Num 1\<rparr>,
      \<lparr>date = ''2019-03-05'', val = Num 7\<rparr>,
      \<lparr>date = ''2020-01-20'', val = Num 3\<rparr>,
      \<lparr>date = ''2020-02-20'', val = Num 4\<rparr>]"

definition january :: "point list" where
  "january =
     [\<lparr>date = ''2020-01-05'', val = Num 1\<rparr>,
      \<lparr>date = ''2020-01-20'', val = Num 3\<rparr>]"

text \<open>
  Annual points for 2019, 2020 and 2022 (no point for 2021), and annual points whose
  first value is 0.
\<close>

definition gap_series :: "point list" where
  "gap_series =
     [\<lparr>date = ''2019-12-31'', val = Num 100\<rparr>,
      \<lparr>date = ''2020-12-31'', val = Num 110\<rparr>,
      \<lparr>date = ''2022-12-31'', val = Num 121\<rparr>]"

definition zero_series :: "point list" where
  "zero_series =
     [\<lparr>date = ''2019-12-31'', val = Num 0\<rparr>,
      \<lparr>date = ''2020-12-31'', val = Num 110\<rparr>]"

text \<open>A map of two series, each without a point in one of three years.\<close>

definition series_ab :: "(string \<times> point list) list" where
  "series_ab =
     [(''A'', [\<lparr>date = ''2019-12-31'', val = Num 100\<rparr>, \<lparr>date = ''2020-12-31'', val = Num 110\<rparr>]),
      (''B'', [\<lparr>date = ''2020-12-31'', val = Num 45\<rparr>, \<lparr>date = ''2021-12-31'', val = Num 47\<rparr>])]"

text \<open>
  An environment, a decoder that knows three encoded texts, and three requests; and an
  environment whose password contains a colon, with the request that supplies exactly
  its user and password.
\<close>

definition basic_env :: env where
  "basic_env = \<lparr>BASIC_AUTH_USER = Some ''admin'', BASIC_AUTH_PASS = Some ''secret''\<rparr>"

definition decode_example :: "string \<Rightarrow> string" where
  "decode_example s =
     (if s = ''YWRtaW46c2VjcmV0'' then ''admin:secret''
      else if s = ''YWRtaW46d3Jvbmc='' then ''admin:wrong''
      else if s = ''YWRtaW46c2U6Y3JldA=='' then ''admin:se:cret''
      else [])"

definition request_none :: request where
  "request_none = \<lparr>authorization = None\<rparr>"

definition request_wrong :: request where
  "request_wrong = \<lparr>authorization = Some ''Basic YWRtaW46d3Jvbmc=''\<rparr>"

definition request_right :: request where
  "request_right = \<lparr>authorization = Some ''Basic YWRtaW46c2VjcmV0''\<rparr>"

definition colon_env :: env where
  "colon_env = \<lparr>BASIC_AUTH_USER = Some ''admin'', BASIC_AUTH_PASS = Some ''se:cret''\<rparr>"

definition request_colon :: request where
  "request_colon = \<lparr>authorization = Some ''Basic YWRtaW46c2U6Y3JldA==''\<rparr>"

section \<open>Rounding to binary64\<close>

text \<open>
  Between two consecutive powers of two, \<open>binary64\<close> rounds to a multiple of the
  distance \<open>u\<close>; a number with a significand of 53 bits is its own rounding; a number
  in the normal range is rounded to a positive number.
\<close>

lemma round_half_even_of_int [simp]: "round_half_even (of_int m) = m"
  by (simp add: round_half_even_def)

lemma round_half_even_bounds: "\<lfloor>r\<rfloor> \<le> round_half_even r" "round_half_even r \<le> \<lfloor>r\<rfloor> + 1"
  by (simp_all add: round_half_even_def Let_def)

text \<open>
  The rounded integer is at most one half away, and it is the only integer less than
  one half away.
\<close>

lemma round_half_even_error: "\<bar>of_int (round_half_even r) - r\<bar> \<le> 1 / 2"
proof -
  have "of_int \<lfloor>r\<rfloor> \<le> r" "r < of_int \<lfloor>r\<rfloor> + 1"
    by linarith+
  then show ?thesis
    by (auto simp: round_half_even_def Let_def)
qed

lemma round_half_even_eq:
  assumes "of_int m - 1 / 2 < r" and "r < of_int m + 1 / 2"
  shows "round_half_even r = m"
proof -
  let ?k = "round_half_even r"
  have "\<bar>of_int ?k - r\<bar> \<le> 1 / 2"
    by (rule round_half_even_error)
  with assms have "\<bar>real_of_int ?k - real_of_int m\<bar> < 1"
    by linarith
  then have "\<bar>real_of_int (?k - m)\<bar> < 1"
    by simp
  then have "\<bar>?k - m\<bar> < 1"
    by linarith
  then show ?thesis
    by simp
qed

lemma floor_log2:
  assumes "2 powi e \<le> x" and "x < 2 powi (e + 1)"
  shows "\<lfloor>log 2 x\<rfloor> = e"
proof -
  have "0 < x"
    using assms(1) zero_less_power_int [of "2::real" e] by linarith
  moreover have "2 powr (of_int e) = (2::real) powi e" "2 powr (of_int e + 1) = (2::real) powi (e + 1)"
    using powr_real_of_int' [of "2::real" e] powr_real_of_int' [of "2::real" "e + 1"] by simp_all
  ultimately show ?thesis
    using assms by (simp add: floor_log_eq_powr_iff)
qed

text \<open>
  Every positive number lies between two consecutive powers of two.
\<close>

lemma two_powi_floor_log:
  assumes "0 < a"
  shows "2 powi \<lfloor>log 2 a\<rfloor> \<le> a" and "a < 2 powi (\<lfloor>log 2 a\<rfloor> + 1)"
proof -
  have "\<lfloor>log 2 a\<rfloor> = \<lfloor>log 2 a\<rfloor>" ..
  then have "2 powr (of_int \<lfloor>log 2 a\<rfloor>) \<le> a \<and> a < 2 powr (of_int \<lfloor>log 2 a\<rfloor> + 1)"
    using assms by (subst (asm) floor_log_eq_powr_iff) simp_all
  moreover have "2 powr (of_int \<lfloor>log 2 a\<rfloor>) = (2::real) powi \<lfloor>log 2 a\<rfloor>"
    "2 powr (of_int \<lfloor>log 2 a\<rfloor> + 1) = (2::real) powi (\<lfloor>log 2 a\<rfloor> + 1)"
    using powr_real_of_int' [of "2::real" "\<lfloor>log 2 a\<rfloor>"] powr_real_of_int' [of "2::real" "\<lfloor>log 2 a\<rfloor> + 1"]
    by simp_all
  ultimately show "2 powi \<lfloor>log 2 a\<rfloor> \<le> a" and "a < 2 powi (\<lfloor>log 2 a\<rfloor> + 1)"
    by simp_all
qed

lemma two_powi_less_cancel:
  assumes "(2::real) powi a < 2 powi b"
  shows "a < b"
proof (rule ccontr)
  assume "\<not> a < b"
  then have "(2::real) powi b \<le> 2 powi a"
    by (intro power_int_increasing) simp_all
  with assms show False by linarith
qed

lemma binary64_normal:
  assumes "2 powi e \<le> \<bar>x\<bar>" and "\<bar>x\<bar> < 2 powi (e + 1)" and "- 1022 \<le> e"
  shows "binary64 x =
           (let u = 2 powi (e - 52); y = of_int (round_half_even (x / u)) * u
            in if 2 ^ 1024 \<le> \<bar>y\<bar> then signed_inf (0 < x) else Num y)"
proof -
  have "0 < (2::real) powi e"
    by simp
  with assms(1) have "0 < \<bar>x\<bar>"
    by linarith
  then have "x \<noteq> 0"
    by simp
  moreover have "\<lfloor>log 2 \<bar>x\<bar>\<rfloor> = e"
    using assms(1,2) by (rule floor_log2)
  ultimately show ?thesis
    using assms(3) by (simp add: binary64_def Let_def max_def)
qed

lemma two_powi_split:
  "(2::real) powi e = 2 ^ 52 * 2 powi (e - 52)" "(2::real) powi (e + 1) = 2 ^ 53 * 2 powi (e - 52)"
proof -
  have "(2::real) powi e = 2 powi (52 + (e - 52))"
    by (simp add: algebra_simps)
  also have "\<dots> = 2 powi 52 * 2 powi (e - 52)"
    by (rule power_int_add) simp
  finally show "(2::real) powi e = 2 ^ 52 * 2 powi (e - 52)"
    by simp
  have "(2::real) powi (e + 1) = 2 powi (53 + (e - 52))"
    by (simp add: algebra_simps)
  also have "\<dots> = 2 powi 53 * 2 powi (e - 52)"
    by (rule power_int_add) simp
  finally show "(2::real) powi (e + 1) = 2 ^ 53 * 2 powi (e - 52)"
    by simp
qed

lemma two_powi_add_nat: "(2::real) powi (a + int n) = 2 ^ n * 2 powi a"
  by (simp add: power_int_add mult.commute)

lemma binary64_exact:
  assumes "x = of_int m * 2 powi (e - 52)"
    and "2 ^ 52 \<le> \<bar>m\<bar>" and "\<bar>m\<bar> < 2 ^ 53" and "- 1022 \<le> e" and "e \<le> 1023"
  shows "binary64 x = Num x"
proof -
  let ?u = "(2::real) powi (e - 52)"
  have u: "0 < ?u" by simp
  have ax: "\<bar>x\<bar> = of_int \<bar>m\<bar> * ?u"
    by (simp add: assms(1) abs_mult)
  have "real_of_int (2 ^ 52) \<le> real_of_int \<bar>m\<bar>"
    using assms(2) by (rule of_int_le_iff [THEN iffD2])
  then have m1: "2 ^ 52 \<le> real_of_int \<bar>m\<bar>"
    by simp
  have "real_of_int \<bar>m\<bar> < real_of_int (2 ^ 53)"
    using assms(3) by (rule of_int_less_iff [THEN iffD2])
  then have m2: "real_of_int \<bar>m\<bar> < 2 ^ 53"
    by simp
  have lo: "2 powi e \<le> \<bar>x\<bar>"
    unfolding ax two_powi_split(1) [of e] using m1 u by (rule mult_right_mono [OF _ less_imp_le])
  have hi: "\<bar>x\<bar> < 2 powi (e + 1)"
    unfolding ax two_powi_split(2) [of e] using m2 u by (rule mult_strict_right_mono)
  have div: "x / ?u = of_int m"
    using u by (simp add: assms(1))
  have "(2::real) powi (e + 1) \<le> 2 powi 1024"
    using assms(5) by (intro power_int_increasing) simp_all
  with hi have "\<bar>x\<bar> < 2 ^ 1024"
    by simp
  then have big: "\<not> 2 ^ 1024 \<le> \<bar>x\<bar>"
    by simp
  have "binary64 x = (if 2 ^ 1024 \<le> \<bar>of_int m * ?u\<bar> then signed_inf (0 < x) else Num (of_int m * ?u))"
    unfolding binary64_normal [OF lo hi assms(4)] Let_def div round_half_even_of_int ..
  then show ?thesis
    using big unfolding assms(1) [symmetric] by (simp only: if_False)
qed

lemma significand_bounds:
  fixes x :: real
  assumes x: "x = of_int m * 2 powi (e - 52)" and m1: "2 ^ 52 \<le> m" and m2: "m < 2 ^ 53"
  shows "2 powi e \<le> x" and "x < 2 powi (e + 1)"
proof -
  let ?u = "(2::real) powi (e - 52)"
  have u: "0 < ?u" by simp
  have "real_of_int (2 ^ 52) \<le> real_of_int m"
    using m1 by (rule of_int_le_iff [THEN iffD2])
  then have "2 ^ 52 * ?u \<le> real_of_int m * ?u"
    using u by simp
  then show "2 powi e \<le> x"
    unfolding two_powi_split(1) [of e] x .
  have "real_of_int m < real_of_int (2 ^ 53)"
    using m2 by (rule of_int_less_iff [THEN iffD2])
  then have "real_of_int m * ?u < 2 ^ 53 * ?u"
    using u by simp
  then show "x < 2 powi (e + 1)"
    unfolding two_powi_split(2) [of e] x .
qed

lemma binary64_positive:
  assumes "2 powi e \<le> x" and "x < 2 powi (e + 1)" and "- 1022 \<le> e" and "e \<le> 1022"
  shows "\<exists>y. binary64 x = Num y \<and> 0 < y"
proof -
  let ?u = "(2::real) powi (e - 52)"
  let ?n = "round_half_even (x / ?u)"
  have u: "0 < ?u" by simp
  have "0 < (2::real) powi e"
    by simp
  with assms(1) have x: "0 < x"
    by linarith
  have "2 ^ 52 * ?u \<le> x" and "x < 2 ^ 53 * ?u"
    using assms(1,2) unfolding two_powi_split [of e] by simp_all
  then have "2 ^ 52 \<le> x / ?u" and "x / ?u < 2 ^ 53"
    using u by (simp_all add: pos_le_divide_eq pos_divide_less_eq)
  then have "2 ^ 52 \<le> \<lfloor>x / ?u\<rfloor>" and "\<lfloor>x / ?u\<rfloor> < 2 ^ 53"
    by (simp_all add: le_floor_iff floor_less_iff)
  then have n: "2 ^ 52 \<le> ?n" "?n \<le> 2 ^ 53"
    using round_half_even_bounds [of "x / ?u"] by linarith+
  from n(1) have "0 < ?n"
    by simp
  then have pos: "0 < real_of_int ?n * ?u"
    using u by simp
  have "real_of_int ?n \<le> real_of_int (2 ^ 53)"
    using n(2) by (rule of_int_le_iff [THEN iffD2])
  then have "real_of_int ?n * ?u \<le> 2 ^ 53 * ?u"
    using u by simp
  also have "\<dots> = 2 powi (e + 1)"
    by (simp only: two_powi_split(2) [of e])
  also have "\<dots> < 2 powi 1024"
    using assms(4) by (intro power_int_strict_increasing) simp_all
  finally have "real_of_int ?n * ?u < 2 ^ 1024"
    by simp
  with pos have big: "\<not> 2 ^ 1024 \<le> \<bar>real_of_int ?n * ?u\<bar>"
    by simp
  have ax: "\<bar>x\<bar> = x"
    using x by simp
  have "binary64 x = (if 2 ^ 1024 \<le> \<bar>real_of_int ?n * ?u\<bar> then signed_inf (0 < x)
                      else Num (real_of_int ?n * ?u))"
    using binary64_normal [of e x] assms(1,2,3) unfolding ax Let_def by simp
  then have "binary64 x = Num (real_of_int ?n * ?u)"
    using big by (simp only: if_False)
  with pos show ?thesis by blast
qed

lemma binary64_nat:
  assumes "n < 2 ^ 53"
  shows "binary64 (real n) = Num (real n)"
proof (cases "n = 0")
  case True
  then show ?thesis by (simp add: binary64_def)
next
  case False
  then have "1 \<le> n" by simp
  then obtain k where k: "2 ^ k \<le> n" "n < 2 ^ (k + 1)"
    using ex_power_ivl1 [of 2 n] by auto
  have "(2::nat) ^ k < 2 ^ 53"
    using k(1) assms by linarith
  then have k53: "k < 53"
    by (rule power_less_imp_less_exp [rotated]) simp
  define m where "m = int (n * 2 ^ (52 - k))"
  have split: "(2::nat) ^ 52 = 2 ^ k * 2 ^ (52 - k)" "(2::nat) ^ 53 = 2 ^ (k + 1) * 2 ^ (52 - k)"
    using k53 by (simp_all flip: power_add)
  have "(2::nat) ^ 52 \<le> n * 2 ^ (52 - k)"
    unfolding split(1) using k(1) by (rule mult_le_mono1)
  then have "int (2 ^ 52) \<le> int (n * 2 ^ (52 - k))"
    by (simp only: of_nat_le_iff)
  then have m1: "2 ^ 52 \<le> \<bar>m\<bar>"
    unfolding m_def by simp
  have "n * 2 ^ (52 - k) < 2 ^ 53"
    unfolding split(2) using k(2) by (simp add: mult_less_mono1)
  then have "int (n * 2 ^ (52 - k)) < int (2 ^ 53)"
    by (simp only: of_nat_less_iff)
  then have m2: "\<bar>m\<bar> < 2 ^ 53"
    unfolding m_def by simp
  have "(2::real) powi (int k - 52) = inverse (2 ^ (52 - k))"
  proof -
    have "int k - 52 = - int (52 - k)"
      using k53 by simp
    then show ?thesis
      by (simp only: power_int_minus power_int_of_nat)
  qed
  then have x: "real n = of_int m * 2 powi (int k - 52)"
    by (simp add: m_def)
  show ?thesis
    using x m1 m2 by (rule binary64_exact) (use k53 in simp_all)
qed

lemma binary64_one_tenth: "binary64 (1 / 10) = Num tenth"
  unfolding tenth_def
  by (subst binary64_normal [of "- 4"]) (simp_all add: round_half_even_def Let_def)

text \<open>
  In the normal range \<open>binary64\<close> moves a number by at most half the distance \<open>u\<close>,
  and not below the power of two under it.
\<close>

lemma binary64_normal_error:
  assumes lo: "2 powi E \<le> z" and hi: "z < 2 powi (E + 1)" and E: "- 1022 \<le> E"
  obtains y where "binary64 z = (if 2 ^ 1024 \<le> y then PosInf else Num y)"
    and "\<bar>y - z\<bar> \<le> 2 powi (E - 52) / 2" and "2 powi E \<le> y"
proof -
  let ?w = "(2::real) powi (E - 52)"
  let ?k = "round_half_even (z / ?w)"
  let ?y = "of_int ?k * ?w"
  have w: "0 < ?w" by simp
  have "0 < (2::real) powi E" by simp
  with lo have z: "0 < z" by linarith
  then have az: "\<bar>z\<bar> = z" by simp
  have "2 ^ 52 * ?w \<le> z"
    using lo unfolding two_powi_split(1) [of E] .
  then have "2 ^ 52 \<le> z / ?w"
    using w by (simp add: pos_le_divide_eq)
  then have "2 ^ 52 \<le> \<lfloor>z / ?w\<rfloor>"
    by (simp add: le_floor_iff)
  then have "2 ^ 52 \<le> ?k"
    using round_half_even_bounds(1) [of "z / ?w"] by linarith
  then have "real_of_int (2 ^ 52) \<le> real_of_int ?k"
    by (rule of_int_le_iff [THEN iffD2])
  then have "2 ^ 52 * ?w \<le> ?y"
    using w by simp
  then have y_lo: "2 powi E \<le> ?y"
    unfolding two_powi_split(1) [of E] .
  then have y: "0 < ?y"
    using \<open>0 < (2::real) powi E\<close> by linarith
  have "\<bar>real_of_int ?k - z / ?w\<bar> \<le> 1 / 2"
    by (rule round_half_even_error)
  then have "\<bar>real_of_int ?k - z / ?w\<bar> * ?w \<le> 1 / 2 * ?w"
    using w by (intro mult_right_mono) simp_all
  moreover have "\<bar>real_of_int ?k - z / ?w\<bar> * ?w = \<bar>?y - z\<bar>"
  proof -
    have "\<bar>real_of_int ?k - z / ?w\<bar> * ?w = \<bar>(real_of_int ?k - z / ?w) * ?w\<bar>"
      using w by (simp add: abs_mult)
    also have "(real_of_int ?k - z / ?w) * ?w = ?y - z"
      using w by (simp add: left_diff_distrib)
    finally show ?thesis .
  qed
  ultimately have err: "\<bar>?y - z\<bar> \<le> ?w / 2"
    by simp
  have "binary64 z = (if 2 ^ 1024 \<le> \<bar>?y\<bar> then signed_inf (0 < z) else Num ?y)"
    using binary64_normal [of E z] lo hi E unfolding az Let_def by simp
  then have "binary64 z = (if 2 ^ 1024 \<le> ?y then PosInf else Num ?y)"
    using y z by (simp add: signed_inf_def)
  then show ?thesis
    using err y_lo by (rule that)
qed

text \<open>
  A positive number is the rounding of a positive number only, and a number that
  \<open>binary64\<close> returns in the normal range has a significand of 53 bits and an
  exponent of the normal range.
\<close>

lemma binary64_cases:
  assumes "z \<noteq> 0"
  obtains e where "- 1022 \<le> e" and "\<bar>z\<bar> < 2 powi (e + 1)" and "e = - 1022 \<or> 2 powi e \<le> \<bar>z\<bar>"
    and "binary64 z =
           (let u = 2 powi (e - 52); y = of_int (round_half_even (z / u)) * u
            in if 2 ^ 1024 \<le> \<bar>y\<bar> then signed_inf (0 < z) else Num y)"
proof -
  let ?E = "\<lfloor>log 2 \<bar>z\<bar>\<rfloor>"
  let ?e = "max ?E (- 1022)"
  have a: "0 < \<bar>z\<bar>"
    using assms by simp
  have lo: "2 powi ?E \<le> \<bar>z\<bar>" and hi: "\<bar>z\<bar> < 2 powi (?E + 1)"
    using two_powi_floor_log [OF a] .
  have "(2::real) powi (?E + 1) \<le> 2 powi (?e + 1)"
    by (intro power_int_increasing) simp_all
  with hi have 2: "\<bar>z\<bar> < 2 powi (?e + 1)"
    by linarith
  have 3: "?e = - 1022 \<or> 2 powi ?e \<le> \<bar>z\<bar>"
    using lo by (auto simp: max_def)
  have 4: "binary64 z =
           (let u = 2 powi (?e - 52); y = of_int (round_half_even (z / u)) * u
            in if 2 ^ 1024 \<le> \<bar>y\<bar> then signed_inf (0 < z) else Num y)"
    using assms by (simp add: binary64_def Let_def)
  show ?thesis
    using _ 2 3 4 by (rule that) simp
qed

lemma binary64_sign:
  assumes "binary64 z = Num x" and "0 < x"
  shows "0 < z"
proof (rule ccontr)
  assume n: "\<not> 0 < z"
  have "z \<noteq> 0"
    using assms by (auto simp: binary64_def)
  then obtain e where b: "binary64 z =
           (let u = 2 powi (e - 52); y = of_int (round_half_even (z / u)) * u
            in if 2 ^ 1024 \<le> \<bar>y\<bar> then signed_inf (0 < z) else Num y)"
    by (rule binary64_cases)
  let ?u = "(2::real) powi (e - 52)"
  let ?k = "round_half_even (z / ?u)"
  have u: "0 < ?u" by simp
  from assms(1) b have xk: "x = of_int ?k * ?u"
    by (auto simp: Let_def signed_inf_def split: if_splits)
  from n \<open>z \<noteq> 0\<close> have "z < 0"
    by simp
  then have "z / ?u < 0"
    using u by (simp add: divide_less_0_iff)
  then have "\<lfloor>z / ?u\<rfloor> < 0"
    by (simp only: floor_less_iff of_int_0)
  then have "?k \<le> 0"
    using round_half_even_bounds(2) [of "z / ?u"] by linarith
  then have "real_of_int ?k \<le> 0"
    by simp
  then have "real_of_int ?k * ?u \<le> 0"
    using u by (simp add: mult_le_0_iff)
  with xk assms(2) show False
    by linarith
qed

lemma binary64_result:
  assumes r: "binary64 z = Num x" and x: "2 powi (- 1022) \<le> x"
  obtains m e where "x = of_int m * 2 powi (e - 52)" and "2 ^ 52 \<le> m" and "m < 2 ^ 53"
    and "- 1022 \<le> e" and "e \<le> 1023"
proof -
  have "0 < (2::real) powi (- 1022)"
    by (rule zero_less_power_int) simp
  with x have x0: "0 < x"
    by linarith
  have "z \<noteq> 0"
    using r x0 by (auto simp: binary64_def)
  then obtain e where e: "- 1022 \<le> e" and hi: "\<bar>z\<bar> < 2 powi (e + 1)"
    and lo: "e = - 1022 \<or> 2 powi e \<le> \<bar>z\<bar>"
    and b: "binary64 z =
           (let u = 2 powi (e - 52); y = of_int (round_half_even (z / u)) * u
            in if 2 ^ 1024 \<le> \<bar>y\<bar> then signed_inf (0 < z) else Num y)"
    by (rule binary64_cases)
  let ?u = "(2::real) powi (e - 52)"
  let ?k = "round_half_even (z / ?u)"
  have u: "0 < ?u" by simp
  from r b have xk: "x = of_int ?k * ?u" and big: "\<not> 2 ^ 1024 \<le> \<bar>x\<bar>"
    by (auto simp: Let_def signed_inf_def split: if_splits)
  have "z \<le> \<bar>z\<bar>" by simp
  with hi have "z < 2 ^ 53 * ?u"
    unfolding two_powi_split(2) [of e] by linarith
  then have "z / ?u < 2 ^ 53"
    using u by (simp add: pos_divide_less_eq)
  then have "\<lfloor>z / ?u\<rfloor> < 2 ^ 53"
    by (simp add: floor_less_iff)
  then have k2: "?k \<le> 2 ^ 53"
    using round_half_even_bounds(2) [of "z / ?u"] by linarith
  have k1: "2 ^ 52 \<le> ?k"
  proof -
    have "2 powi e \<le> x"
    proof (rule disjE [OF lo])
      assume "e = - 1022"
      with x show ?thesis by simp
    next
      assume l: "2 powi e \<le> \<bar>z\<bar>"
      have "0 < z"
        using r x0 by (rule binary64_sign)
      with l have "2 ^ 52 * ?u \<le> z"
        unfolding two_powi_split(1) [of e] by simp
      then have "2 ^ 52 \<le> z / ?u"
        using u by (simp add: pos_le_divide_eq)
      then have "2 ^ 52 \<le> \<lfloor>z / ?u\<rfloor>"
        by (simp add: le_floor_iff)
      then have "2 ^ 52 \<le> ?k"
        using round_half_even_bounds(1) [of "z / ?u"] by linarith
      then have "real_of_int (2 ^ 52) \<le> real_of_int ?k"
        by (rule of_int_le_iff [THEN iffD2])
      then have "2 ^ 52 * ?u \<le> real_of_int ?k * ?u"
        using u by simp
      then show ?thesis
        unfolding two_powi_split(1) [of e] xk .
    qed
    then have "2 ^ 52 * ?u \<le> real_of_int ?k * ?u"
      unfolding two_powi_split(1) [of e] xk .
    then have "2 ^ 52 \<le> real_of_int ?k"
      using u by simp
    then have "real_of_int (2 ^ 52) \<le> real_of_int ?k"
      by simp
    then show ?thesis
      by (rule of_int_le_iff [THEN iffD1])
  qed
  from big x0 have x_hi: "x < 2 powi 1024"
    by simp
  show ?thesis
  proof (cases "?k < 2 ^ 53")
    case True
    have "real_of_int (2 ^ 52) \<le> real_of_int ?k"
      using k1 by (rule of_int_le_iff [THEN iffD2])
    then have "2 ^ 52 * ?u \<le> real_of_int ?k * ?u"
      using u by simp
    then have "2 powi e \<le> x"
      unfolding two_powi_split(1) [of e] xk .
    with x_hi have "(2::real) powi e < 2 powi 1024"
      by linarith
    then have "e < 1024"
      by (rule two_powi_less_cancel)
    then have "e \<le> 1023"
      by simp
    with xk k1 True e show ?thesis
      by (rule that)
  next
    case False
    with k2 have k: "?k = 2 ^ 53"
      by simp
    have "x = 2 ^ 53 * ?u"
      by (simp add: xk k)
    then have xe: "x = 2 powi (e + 1)"
      by (simp only: two_powi_split(2) [of e])
    with x_hi have "(2::real) powi (e + 1) < 2 powi 1024"
      by simp
    then have "e + 1 < 1024"
      by (rule two_powi_less_cancel)
    then have e': "e + 1 \<le> 1023"
      by simp
    have "x = of_int (2 ^ 52) * 2 powi (e + 1 - 52)"
      unfolding xe two_powi_split(1) [of "e + 1"] by simp
    then show ?thesis
      using _ _ _ e' by (rule that) (use e in simp_all)
  qed
qed

text \<open>
  Below the normal range the distance between the binary64 numbers is \<open>2 powi (- 1074)\<close>.
\<close>

lemma binary64_subnormal:
  assumes "x \<noteq> 0" and "\<bar>x\<bar> < 2 powi (- 1022)"
  shows "binary64 x = Num (of_int (round_half_even (x / 2 powi (- 1074))) * 2 powi (- 1074))"
proof -
  let ?E = "\<lfloor>log 2 \<bar>x\<bar>\<rfloor>"
  let ?u = "(2::real) powi (- 1074)"
  let ?k = "round_half_even (x / ?u)"
  have a: "0 < \<bar>x\<bar>"
    using assms(1) by simp
  have "2 powi ?E \<le> \<bar>x\<bar>"
    using two_powi_floor_log(1) [OF a] .
  with assms(2) have "(2::real) powi ?E < 2 powi (- 1022)"
    by linarith
  then have "?E < - 1022"
    by (rule two_powi_less_cancel)
  then have m: "max ?E (- 1022) = - 1022"
    by simp
  have u: "0 < ?u"
    by (rule zero_less_power_int) simp
  have "\<bar>x\<bar> < 2 ^ 52 * ?u"
    using assms(2) two_powi_split(1) [of "- 1022"] by simp
  then have "\<bar>x\<bar> / ?u < 2 ^ 52"
    using u by (simp add: pos_divide_less_eq)
  then have "\<bar>x / ?u\<bar> < 2 ^ 52"
    using u by (simp add: abs_divide)
  then have "- (2 ^ 52) < x / ?u" "x / ?u < 2 ^ 52"
    by (simp_all add: abs_less_iff)
  then have "- (2 ^ 52) \<le> \<lfloor>x / ?u\<rfloor>" "\<lfloor>x / ?u\<rfloor> < 2 ^ 52"
    by (simp_all add: le_floor_iff floor_less_iff)
  then have "- (2 ^ 52) \<le> ?k" "?k \<le> 2 ^ 52"
    using round_half_even_bounds [of "x / ?u"] by linarith+
  then have "\<bar>?k\<bar> \<le> 2 ^ 52"
    by simp
  then have "real_of_int \<bar>?k\<bar> \<le> real_of_int (2 ^ 52)"
    by (rule of_int_le_iff [THEN iffD2])
  then have "\<bar>real_of_int ?k\<bar> * ?u \<le> 2 ^ 52 * ?u"
    using u by (intro mult_right_mono) simp_all
  also have "\<dots> = 2 powi (- 1022)"
    using two_powi_split(1) [of "- 1022"] by simp
  also have "\<dots> < 2 powi 1024"
    by (intro power_int_strict_increasing) simp_all
  finally have "\<bar>real_of_int ?k * ?u\<bar> < 2 ^ 1024"
    using u by (simp add: abs_mult)
  then have big: "\<not> 2 ^ 1024 \<le> \<bar>real_of_int ?k * ?u\<bar>"
    by simp
  have "- 1022 - 52 = (- 1074 :: int)"
    by simp
  then have "binary64 x = (if 2 ^ 1024 \<le> \<bar>real_of_int ?k * ?u\<bar> then signed_inf (0 < x)
      else Num (real_of_int ?k * ?u))"
    using assms(1) unfolding binary64_def Let_def m by simp
  then show ?thesis
    using big by (simp only: if_False)
qed

section \<open>The square root of a rounded square\<close>

text \<open>
  Let \<open>d\<close> be a positive binary64 number whose square lies in the normal range,
  \<open>v\<close> the distance between the binary64 numbers around \<open>d\<close> and \<open>M = d / v\<close> its
  significand. The rounding of \<open>d * d\<close> to a number \<open>y\<close> moves it by less than
  \<open>(M - 1 / 4) * v * v\<close>, so \<open>y\<close> lies strictly between the squares of \<open>d - v / 2\<close>
  and \<open>d + v / 2\<close>; its square root is then less than half a distance away from \<open>d\<close>,
  and is rounded to \<open>d\<close>: \<open>Math.sqrt(d * d)\<close> is \<open>d\<close>.
\<close>

lemma square_window:
  fixes M v y c :: real
  assumes v: "0 < v" and err: "\<bar>y - (M * v) * (M * v)\<bar> \<le> c * (v * v) / 2" and c: "c / 2 < M - 1 / 4"
  shows "(M * v - v / 2)\<^sup>2 < y" and "y < (M * v + v / 2)\<^sup>2"
proof -
  have t: "0 < v * v"
    using v by simp
  have "c / 2 * (v * v) < (M - 1 / 4) * (v * v)"
    using c t by (rule mult_strict_right_mono)
  then have b: "c * (v * v) / 2 < (M - 1 / 4) * (v * v)"
    by simp
  have l: "(M * v - v / 2)\<^sup>2 = (M * v) * (M * v) - (M - 1 / 4) * (v * v)"
    by (simp add: power2_eq_square algebra_simps)
  have u: "(M * v + v / 2)\<^sup>2 = (M * v) * (M * v) + (M + 1 / 4) * (v * v)"
    by (simp add: power2_eq_square algebra_simps)
  have "(M - 1 / 4) * (v * v) \<le> (M + 1 / 4) * (v * v)"
    using t by (intro mult_right_mono) simp_all
  with err b show "(M * v - v / 2)\<^sup>2 < y" and "y < (M * v + v / 2)\<^sup>2"
    unfolding l u by linarith+
qed

lemma binary64_sqrt_window:
  assumes x: "x = of_int m * 2 powi (e - 52)"
    and m1: "2 ^ 52 \<le> m" and m2: "m < 2 ^ 53" and e1: "- 1022 \<le> e" and e2: "e \<le> 1023"
    and lo: "(x - 2 powi (e - 52) / 2)\<^sup>2 < y" and hi: "y < (x + 2 powi (e - 52) / 2)\<^sup>2"
    and y: "(2 powi e)\<^sup>2 \<le> y"
  shows "binary64 (sqrt y) = Num x"
proof -
  let ?v = "(2::real) powi (e - 52)"
  let ?s = "sqrt y"
  have v: "0 < ?v" by simp
  have "real_of_int (2 ^ 52) \<le> real_of_int m"
    using m1 by (rule of_int_le_iff [THEN iffD2])
  then have M1: "2 ^ 52 \<le> real_of_int m"
    by simp
  from m2 have "m \<le> 2 ^ 53 - 1"
    by simp
  then have "real_of_int m \<le> real_of_int (2 ^ 53 - 1)"
    by (rule of_int_le_iff [THEN iffD2])
  then have M2: "real_of_int m \<le> 2 ^ 53 - 1"
    by simp
  have xv: "x / ?v = of_int m"
    using v by (simp add: x)
  have "0 \<le> x - ?v / 2"
  proof -
    have "1 / 2 * ?v \<le> real_of_int m * ?v"
      using v M1 by (intro mult_right_mono) simp_all
    then show ?thesis by (simp add: x)
  qed
  have s_lo: "x - ?v / 2 < ?s"
    using lo by (rule real_less_rsqrt)
  have "0 \<le> x + ?v / 2"
    using \<open>0 \<le> x - ?v / 2\<close> v by linarith
  have y0: "0 \<le> y"
    using y zero_le_power2 [of "(2::real) powi e"] by linarith
  have s_hi: "?s < x + ?v / 2"
    using y0 hi \<open>0 \<le> x + ?v / 2\<close> by (intro real_less_lsqrt) simp_all
  have b_lo: "2 powi e \<le> ?s"
    using y by (rule real_le_rsqrt)
  have "x + ?v / 2 = (real_of_int m + 1 / 2) * ?v"
    by (simp add: x algebra_simps)
  also have "\<dots> < 2 ^ 53 * ?v"
    using v M2 by (intro mult_strict_right_mono) simp_all
  also have "\<dots> = 2 powi (e + 1)"
    by (simp only: two_powi_split(2) [of e])
  finally have "x + ?v / 2 < 2 powi (e + 1)" .
  with s_hi have b_hi: "?s < 2 powi (e + 1)"
    by linarith
  have "0 < (2::real) powi e" by simp
  with b_lo have s: "0 < ?s" by linarith
  then have as: "\<bar>?s\<bar> = ?s" by simp
  have "(x - ?v / 2) / ?v < ?s / ?v" and "?s / ?v < (x + ?v / 2) / ?v"
    using s_lo s_hi v by (simp_all add: divide_strict_right_mono)
  then have "real_of_int m - 1 / 2 < ?s / ?v" and "?s / ?v < real_of_int m + 1 / 2"
    using v xv by (simp_all add: diff_divide_distrib add_divide_distrib)
  then have r: "round_half_even (?s / ?v) = m"
    by (rule round_half_even_eq)
  have "x < x + ?v / 2"
    using v by simp
  also have "\<dots> < 2 powi (e + 1)"
    by fact
  also have "\<dots> \<le> 2 powi 1024"
    using e2 by (intro power_int_increasing) simp_all
  finally have "x < 2 ^ 1024"
    by simp
  moreover have "0 \<le> x"
    using \<open>0 \<le> x - ?v / 2\<close> v by linarith
  ultimately have big: "\<not> 2 ^ 1024 \<le> \<bar>x\<bar>"
    by simp
  have "binary64 ?s = (if 2 ^ 1024 \<le> \<bar>of_int m * ?v\<bar> then signed_inf (0 < ?s) else Num (of_int m * ?v))"
    using binary64_normal [of e ?s] b_lo b_hi e1 unfolding as Let_def r by simp
  then show ?thesis
    using big unfolding x [symmetric] by (simp only: if_False)
qed

lemma binary64_sqrt_square:
  assumes x: "x = of_int m * 2 powi (e - 52)"
    and m1: "2 ^ 52 \<le> m" and m2: "m < 2 ^ 53" and e1: "- 511 \<le> e" and e2: "e \<le> 511"
  shows "js_sqrt binary64 (js_mul binary64 (Num x) (Num x)) = Num x"
proof -
  define v where "v = (2::real) powi (e - 52)"
  define M where "M = real_of_int m"
  define t where "t = (2::real) powi (2 * e - 104)"
  have v: "0 < v" and t: "0 < t"
    by (simp_all add: v_def t_def)
  have xM: "x = M * v"
    by (simp add: x M_def v_def)
  have vv: "v * v = t"
  proof -
    have "(2::real) powi ((e - 52) + (e - 52)) = 2 powi (e - 52) * 2 powi (e - 52)"
      by (rule power_int_add) simp
    moreover have "(e - 52) + (e - 52) = 2 * e - 104"
      by simp
    ultimately show ?thesis
      by (simp add: v_def t_def)
  qed
  have p: "(2::real) powi (2 * e) = 2 ^ 104 * t" "(2::real) powi (2 * e + 1) = 2 ^ 105 * t"
    "(2::real) powi (2 * e + 2) = 2 ^ 106 * t" "(2::real) powi (2 * e - 52) = 2 ^ 52 * t"
    "(2::real) powi (2 * e + 1 - 52) = 2 ^ 53 * t"
    using two_powi_add_nat [of "2 * e - 104" 104] two_powi_add_nat [of "2 * e - 104" 105]
      two_powi_add_nat [of "2 * e - 104" 106] two_powi_add_nat [of "2 * e - 104" 52]
      two_powi_add_nat [of "2 * e - 104" 53]
    unfolding t_def by (simp_all add: algebra_simps)
  have ee: "(2 powi e)\<^sup>2 = (2::real) powi (2 * e)"
  proof -
    have "(2::real) powi (2 * e) = 2 powi (e + e)"
      by (simp only: mult_2)
    also have "\<dots> = 2 powi e * 2 powi e"
      by (rule power_int_add) simp
    finally show ?thesis
      by (simp only: power2_eq_square)
  qed
  have "real_of_int (2 ^ 52) \<le> real_of_int m"
    using m1 by (rule of_int_le_iff [THEN iffD2])
  then have M1: "2 ^ 52 \<le> M"
    by (simp add: M_def)
  from m2 have "m \<le> 2 ^ 53 - 1"
    by simp
  then have "real_of_int m \<le> real_of_int (2 ^ 53 - 1)"
    by (rule of_int_le_iff [THEN iffD2])
  then have M2: "M \<le> 2 ^ 53 - 1"
    by (simp add: M_def)
  have M0: "0 \<le> M"
    using M1 by simp
  have xx: "x * x = M * M * t"
    by (simp add: xM vv [symmetric] algebra_simps)
  have MM1: "2 ^ 104 \<le> M * M"
    using mult_mono [OF M1 M1] M0 by simp
  have MM2: "M * M < 2 ^ 106"
  proof -
    have "M * M \<le> (2 ^ 53 - 1) * (2 ^ 53 - 1)"
      using M2 M0 by (intro mult_mono) simp_all
    then show ?thesis by simp
  qed
  obtain y where r: "binary64 (x * x) = (if 2 ^ 1024 \<le> y then PosInf else Num y)"
    and err: "\<bar>y - x * x\<bar> \<le> (if M * M < 2 ^ 105 then 2 ^ 52 else 2 ^ 53) * t / 2"
    and y_lo: "2 powi (2 * e) \<le> y"
  proof (cases "M * M < 2 ^ 105")
    case True
    have "2 powi (2 * e) \<le> x * x"
      unfolding xx p using MM1 t by (intro mult_right_mono) simp_all
    moreover have "x * x < 2 powi (2 * e + 1)"
      unfolding xx p using True t by (intro mult_strict_right_mono) simp_all
    moreover have "- 1022 \<le> 2 * e"
      using e1 by simp
    ultimately obtain y where "binary64 (x * x) = (if 2 ^ 1024 \<le> y then PosInf else Num y)"
      and "\<bar>y - x * x\<bar> \<le> 2 powi (2 * e - 52) / 2" and "2 powi (2 * e) \<le> y"
      by (rule binary64_normal_error)
    then show ?thesis
      using True that [of y] unfolding p by simp
  next
    case False
    have "2 powi (2 * e + 1) \<le> x * x"
      unfolding xx p using False t by (intro mult_right_mono) simp_all
    moreover have "x * x < 2 powi (2 * e + 1 + 1)"
    proof -
      have "x * x < 2 powi (2 * e + 2)"
        unfolding xx p using MM2 t by (intro mult_strict_right_mono) simp_all
      then show ?thesis by (simp add: algebra_simps)
    qed
    moreover have "- 1022 \<le> 2 * e + 1"
      using e1 by simp
    ultimately obtain y where "binary64 (x * x) = (if 2 ^ 1024 \<le> y then PosInf else Num y)"
      and "\<bar>y - x * x\<bar> \<le> 2 powi (2 * e + 1 - 52) / 2" and "2 powi (2 * e + 1) \<le> y"
      by (rule binary64_normal_error)
    moreover have "(2::real) powi (2 * e) \<le> 2 powi (2 * e + 1)"
      by (intro power_int_increasing) simp_all
    ultimately show ?thesis
      using False that [of y] unfolding p by simp
  qed
  have c: "(if M * M < 2 ^ 105 then 2 ^ 52 else 2 ^ 53) / 2 < M - 1 / 4" (is "?c / 2 < _")
  proof (cases "M * M < 2 ^ 105")
    case True
    then show ?thesis using M1 by simp
  next
    case False
    have "\<not> M \<le> 2 ^ 52 + 1"
    proof
      assume "M \<le> 2 ^ 52 + 1"
      then have "M * M \<le> (2 ^ 52 + 1) * (2 ^ 52 + 1)"
        using M0 by (intro mult_mono) simp_all
      with False show False by simp
    qed
    with False show ?thesis by simp
  qed
  have err': "\<bar>y - (M * v) * (M * v)\<bar> \<le> ?c * (v * v) / 2"
    using err unfolding xM vv .
  have lo: "(x - v / 2)\<^sup>2 < y" and hi: "y < (x + v / 2)\<^sup>2"
    using square_window [OF v err' c] unfolding xM .
  have "x + v / 2 = (M + 1 / 2) * v"
    by (simp add: xM algebra_simps)
  then have "(x + v / 2)\<^sup>2 = (M + 1 / 2) * (M + 1 / 2) * t"
    by (simp add: power2_eq_square vv [symmetric] algebra_simps)
  also have "\<dots> \<le> 2 ^ 106 * t"
  proof -
    have "(M + 1 / 2) * (M + 1 / 2) \<le> (2 ^ 53 - 1 + 1 / 2) * (2 ^ 53 - 1 + 1 / 2)"
      using M2 M0 by (intro mult_mono) simp_all
    then have "(M + 1 / 2) * (M + 1 / 2) \<le> 2 ^ 106"
      by simp
    then show ?thesis
      using t by (intro mult_right_mono) simp_all
  qed
  also have "\<dots> = 2 powi (2 * e + 2)"
    by (simp only: p)
  also have "\<dots> \<le> 2 powi 1024"
    using e2 by (intro power_int_increasing) simp_all
  finally have "(x + v / 2)\<^sup>2 \<le> 2 ^ 1024"
    by simp
  with hi have "y < 2 ^ 1024"
    by linarith
  with r have sq: "binary64 (x * x) = Num y"
    by simp
  have "0 < (2::real) powi (2 * e)"
    by simp
  with y_lo have y0: "\<not> y < 0"
    by linarith
  have "binary64 (sqrt y) = Num x"
    using x m1 m2 _ _ lo [unfolded v_def] hi [unfolded v_def]
  proof (rule binary64_sqrt_window)
    show "- 1022 \<le> e" "e \<le> 1023"
      using e1 e2 by simp_all
    show "(2 powi e)\<^sup>2 \<le> y"
      using y_lo by (simp only: ee)
  qed
  then show ?thesis
    using sq y0 by simp
qed

lemma binary64_sqrt_square_result:
  assumes r: "binary64 z = Num d" and lo: "2 powi (- 511) \<le> d" and hi: "d < 2 ^ 512"
  shows "js_sqrt binary64 (js_mul binary64 (Num d) (Num d)) = Num d"
proof -
  have "(2::real) powi (- 1022) \<le> 2 powi (- 511)"
    by (intro power_int_increasing) simp_all
  with lo have "2 powi (- 1022) \<le> d"
    by linarith
  with r obtain m e where d: "d = of_int m * 2 powi (e - 52)" and m: "2 ^ 52 \<le> m" "m < 2 ^ 53"
    by (rule binary64_result)
  have b: "2 powi e \<le> d" "d < 2 powi (e + 1)"
    using d m by (rule significand_bounds)+
  have "(2::real) powi (- 511) < 2 powi (e + 1)"
    using lo b(2) by linarith
  then have "- 511 < e + 1"
    by (rule two_powi_less_cancel)
  then have e1: "- 511 \<le> e"
    by simp
  have "d < 2 powi 512"
    using hi by simp
  with b(1) have "(2::real) powi e < 2 powi 512"
    by linarith
  then have "e < 512"
    by (rule two_powi_less_cancel)
  then have e2: "e \<le> 511"
    by simp
  show ?thesis
    using d m e1 e2 by (rule binary64_sqrt_square)
qed

section \<open>The binary64 numbers of the examples\<close>

text \<open>
  The numbers that occur when \<open>corr\<close> runs on the columns of \<open>tenth_rows\<close>. Each is a
  binary64 number and its own rounding, but for two: the sum of three tenths, and the
  third of the rounded sum, which is not the tenth again.
\<close>

lemma binary64_tenth: "binary64 (3602879701896397 / 36028797018963968) = Num (3602879701896397 / 36028797018963968)"
  by (rule binary64_exact [of _ 7205759403792794 "- 4"]) simp_all

lemma binary64_two_tenths: "binary64 (3602879701896397 / 18014398509481984) = Num (3602879701896397 / 18014398509481984)"
  by (rule binary64_exact [of _ 7205759403792794 "- 3"]) simp_all

lemma binary64_one: "binary64 1 = Num 1"
  by (rule binary64_exact [of _ 4503599627370496 0]) simp_all

lemma binary64_three: "binary64 3 = Num 3"
  by (rule binary64_exact [of _ 6755399441055744 1]) simp_all

lemma binary64_six: "binary64 6 = Num 6"
  by (rule binary64_exact [of _ 6755399441055744 2]) simp_all

lemma binary64_two: "binary64 2 = Num 2"
  by (rule binary64_exact [of _ 4503599627370496 1]) simp_all

lemma binary64_minus_one: "binary64 (- 1) = Num (- 1)"
  by (rule binary64_exact [of _ "- 4503599627370496" 0]) simp_all

lemma binary64_gap: "binary64 (1 / 72057594037927936) = Num (1 / 72057594037927936)"
  by (rule binary64_exact [of _ 4503599627370496 "- 56"]) simp_all

lemma binary64_minus_gap: "binary64 (- (1 / 72057594037927936)) = Num (- (1 / 72057594037927936))"
  by (rule binary64_exact [of _ "- 4503599627370496" "- 56"]) simp_all

lemma binary64_gap_squared: "binary64 (1 / 5192296858534827628530496329220096) = Num (1 / 5192296858534827628530496329220096)"
  by (rule binary64_exact [of _ 4503599627370496 "- 112"]) simp_all

lemma binary64_two_gap_squared: "binary64 (1 / 2596148429267413814265248164610048) = Num (1 / 2596148429267413814265248164610048)"
  by (rule binary64_exact [of _ 4503599627370496 "- 111"]) simp_all

lemma binary64_three_gap_squared: "binary64 (3 / 5192296858534827628530496329220096) = Num (3 / 5192296858534827628530496329220096)"
  by (rule binary64_exact [of _ 6755399441055744 "- 111"]) simp_all

lemma binary64_six_gap_squared: "binary64 (3 / 2596148429267413814265248164610048) = Num (3 / 2596148429267413814265248164610048)"
  by (rule binary64_exact [of _ 6755399441055744 "- 110"]) simp_all

lemma binary64_zero: "binary64 0 = Num 0"
  by (simp add: binary64_def)

lemma binary64_three_tenths: "binary64 (10808639105689191 / 36028797018963968) = Num (1351079888211149 / 4503599627370496)"
  by (subst binary64_normal [of "- 2"]) (simp_all add: round_half_even_def Let_def)

lemma binary64_third: "binary64 (1351079888211149 / 13510798882111488) = Num (7205759403792795 / 72057594037927936)"
  by (subst binary64_normal [of "- 4"]) (simp_all add: round_half_even_def Let_def)

lemmas binary64_values = binary64_tenth binary64_two_tenths binary64_one binary64_three binary64_six binary64_two binary64_minus_one binary64_gap binary64_minus_gap binary64_gap_squared binary64_two_gap_squared binary64_three_gap_squared binary64_six_gap_squared binary64_zero binary64_three_tenths binary64_third

text \<open>
  The numbers that occur when the correlation is computed on the other example tables,
  the square of a number that overflows, and the three roundings of
  \<open>(110 / 100 - 1) * 100\<close>.
\<close>

lemma binary64_minus_two: "binary64 (- 2) = Num (- 2)"
  by (rule binary64_exact [of _ "- 4503599627370496" 1]) simp_all

lemma binary64_small:
  "binary64 4 = Num 4" "binary64 8 = Num 8" "binary64 12 = Num 12" "binary64 16 = Num 16"
  using binary64_nat [of 4] binary64_nat [of 8] binary64_nat [of 12] binary64_nat [of 16]
  by simp_all

lemma binary64_overflow: "binary64 (2 ^ 1024) = PosInf"
  by (subst binary64_normal [of 1024]) (simp_all add: signed_inf_def round_half_even_def Let_def)

lemma binary64_growth:
  "binary64 (11 / 10) = Num (2476979795053773 / 2251799813685248)"
  "binary64 (225179981368525 / 2251799813685248) = Num (225179981368525 / 2251799813685248)"
  "binary64 (5629499534213125 / 562949953421312) = Num (5629499534213125 / 562949953421312)"
  by (subst binary64_normal [of 0], simp_all add: round_half_even_def Let_def)
    (rule binary64_exact [of _ 7205759403792800 "- 4"], simp_all,
     rule binary64_exact [of _ 5629499534213125 3], simp_all)

section \<open>Properties of the correlation matrix, for every rounding\<close>

lemma js_mul_commute: "js_mul rnd x y = js_mul rnd y x"
  by (cases x; cases y) (auto simp: mult.commute split: option.splits)

lemma finite_number_iff: "finite_number v \<longleftrightarrow> (\<exists>x. v = Some (JNum (Num x)))"
  by (cases v rule: finite_number.cases) (auto elim: isFinite.elims)

lemma valid_rows_eq:
  "valid_rows rows keys = filter (\<lambda>r. \<forall>k \<in> set keys. \<exists>x. r k = Some (JNum (Num x))) rows"
  by (simp add: valid_rows_def list_all_iff finite_number_iff)

lemma length_correlationMatrix: "length (correlationMatrix rnd rows keys) = length keys"
  by (simp add: correlationMatrix_def Let_def)

lemma length_correlationMatrix_row:
  "i < length keys \<Longrightarrow> length (correlationMatrix rnd rows keys ! i) = length keys"
  by (simp add: correlationMatrix_def Let_def)

lemma correlationMatrix_nth:
  "i < length keys \<Longrightarrow> j < length keys \<Longrightarrow>
   correlationMatrix rnd rows keys ! i ! j =
     corr rnd (map (\<lambda>r. as_number (r (keys ! i))) (valid_rows rows keys))
              (map (\<lambda>r. as_number (r (keys ! j))) (valid_rows rows keys))"
  by (simp add: correlationMatrix_def columns_def Let_def)

lemma as_number_valid:
  assumes "r \<in> set (valid_rows rows keys)" and "k \<in> set keys"
  shows "as_number (r k) = Num (real_of (r k))"
proof -
  from assms have "finite_number (r k)"
    by (simp add: valid_rows_def list_all_iff)
  then obtain x where "r k = Some (JNum (Num x))"
    by (auto simp: finite_number_iff)
  then show ?thesis by simp
qed

lemma column_valid:
  assumes "k \<in> set keys"
  shows "map (\<lambda>r. as_number (r k)) (valid_rows rows keys) =
         map Num (map (\<lambda>r. real_of (r k)) (valid_rows rows keys))"
  using assms by (simp add: as_number_valid)

text \<open>
  The loop of \<open>corr\<close> computes the three sums of the specification's wording, term by
  term and in the same order: on two lists of finite numbers of the same length \<open>corr\<close>
  is \<open>pearson\<close>, for every rounding.
\<close>

lemma foldl_corr_step:
  assumes "k \<le> length a" and "length a = length b"
  shows "foldl (corr_step rnd a b ma mb) (Num 0, Num 0, Num 0) [0..<k] =
         (rounded_sum rnd (map (\<lambda>(d, d'). js_mul rnd d d')
            (zip (map (\<lambda>v. js_sub rnd v ma) (take k a)) (map (\<lambda>v. js_sub rnd v mb) (take k b)))),
          rounded_sum rnd (map (\<lambda>d. js_mul rnd d d) (map (\<lambda>v. js_sub rnd v ma) (take k a))),
          rounded_sum rnd (map (\<lambda>d. js_mul rnd d d) (map (\<lambda>v. js_sub rnd v mb) (take k b))))"
  using assms
proof (induction k)
  case 0
  then show ?case by (simp add: rounded_sum_def)
next
  case (Suc k)
  then have k: "k < length a" "k < length b"
    by simp_all
  have t: "take (Suc k) a = take k a @ [a ! k]" "take (Suc k) b = take k b @ [b ! k]"
    using k by (simp_all add: take_Suc_conv_app_nth)
  show ?case
    using Suc k unfolding t by (simp add: rounded_sum_def corr_step_def Let_def)
qed

lemma corr_pearson:
  assumes "length xs = length ys"
  shows "corr rnd (map Num xs) (map Num ys) = pearson rnd xs ys"
proof (cases "length xs < 3")
  case True
  then show ?thesis
    using assms by (simp add: corr_def pearson_def)
next
  case False
  let ?n = "length xs"
  let ?ma = "rounded_mean rnd xs" and ?mb = "rounded_mean rnd ys"
  have m: "min (length (map Num xs)) (length (map Num ys)) = ?n"
    using assms by simp
  have ma: "js_div rnd (foldl (js_add rnd) (Num 0) (map Num xs)) (Num (real ?n)) = ?ma"
    and mb: "js_div rnd (foldl (js_add rnd) (Num 0) (map Num ys)) (Num (real ?n)) = ?mb"
    using assms by (simp_all add: rounded_mean_def rounded_sum_def)
  have loop: "foldl (corr_step rnd (map Num xs) (map Num ys) ?ma ?mb) (Num 0, Num 0, Num 0) [0..<?n] =
      (centered_products rnd xs ys, centered_squares rnd xs, centered_squares rnd ys)"
    using foldl_corr_step [of ?n "map Num xs" "map Num ys" rnd ?ma ?mb] assms
    by (simp add: centered_products_def centered_squares_def deviations_def o_def)
  have "corr rnd (map Num xs) (map Num ys) =
          (let den = js_sqrt rnd (js_mul rnd (centered_squares rnd xs) (centered_squares rnd ys))
           in if js_strict_eq den (Num 0) then NaN else js_div rnd (centered_products rnd xs ys) den)"
    unfolding corr_def Let_def m ma mb loop prod.case using False by (simp only: if_False)
  then show ?thesis
    using False by (simp add: pearson_def js_strict_eq_def Let_def)
qed

lemma centered_products_self: "centered_products rnd xs xs = centered_squares rnd xs"
  by (simp add: centered_products_def centered_squares_def zip_same_conv_map o_def)

text \<open>
  The correlation of the columns 1, 2, 3 and 2, 4, 6 in binary64: every intermediate
  result is a small integer and its own rounding. With the values 10 and 0 in front,
  the centered sum of products is negative, and so is the correlation.
\<close>

lemma centered_squares_example:
  "centered_squares binary64 [1, 2, 3] = Num 2" "centered_squares binary64 [2, 4, 6] = Num 8"
  "centered_products binary64 [1, 2, 3] [2, 4, 6] = Num 4"
  by (simp_all add: centered_squares_def centered_products_def deviations_def rounded_mean_def
      rounded_sum_def js_sub_def binary64_values binary64_small binary64_minus_two)

lemma pearson_example: "pearson binary64 [1, 2, 3] [2, 4, 6] = Num 1"
proof -
  have "sqrt 16 = 4"
    using real_sqrt_abs2 [of 4] by simp
  then show ?thesis
    by (simp add: pearson_def centered_squares_example binary64_small binary64_one)
qed

lemma pearson_outlier: "pearson binary64 [10, 1, 2, 3] [0, 2, 4, 6] \<noteq> Num 1"
proof -
  have n: "binary64 10 = Num 10" "binary64 11 = Num 11" "binary64 13 = Num 13"
    "binary64 16 = Num 16" "binary64 36 = Num 36" "binary64 45 = Num 45" "binary64 49 = Num 49"
    "binary64 50 = Num 50" "binary64 9 = Num 9" "binary64 20 = Num 20" "binary64 12 = Num 12"
    "binary64 4 = Num 4" "binary64 1000 = Num 1000"
    using binary64_nat [of 10] binary64_nat [of 11] binary64_nat [of 13] binary64_nat [of 16]
      binary64_nat [of 36] binary64_nat [of 45] binary64_nat [of 49] binary64_nat [of 50]
      binary64_nat [of 9] binary64_nat [of 20] binary64_nat [of 12] binary64_nat [of 4]
      binary64_nat [of 1000]
    by simp_all
  have m: "binary64 (- 3) = Num (- 3)" "binary64 (- 18) = Num (- 18)" "binary64 (- 15) = Num (- 15)"
    "binary64 (- 17) = Num (- 17)" "binary64 (- 20) = Num (- 20)"
    by (rule binary64_exact [of _ "- 3 * 2 ^ 51" 1], simp_all)
      (rule binary64_exact [of _ "- 9 * 2 ^ 49" 4], simp_all,
       rule binary64_exact [of _ "- 15 * 2 ^ 49" 3], simp_all,
       rule binary64_exact [of _ "- 17 * 2 ^ 48" 4], simp_all,
       rule binary64_exact [of _ "- 5 * 2 ^ 50" 4], simp_all)
  have s: "centered_squares binary64 [10, 1, 2, 3] = Num 50"
    "centered_squares binary64 [0, 2, 4, 6] = Num 20"
    "centered_products binary64 [10, 1, 2, 3] [0, 2, 4, 6] = Num (- 20)"
    by (simp_all add: centered_squares_def centered_products_def deviations_def rounded_mean_def
      rounded_sum_def js_sub_def binary64_values binary64_minus_two n m)
  have "2 powi 4 \<le> sqrt 1000"
    by (rule real_le_rsqrt) simp
  moreover have "sqrt 1000 < 2 powi (4 + 1)"
    by (rule real_less_lsqrt) simp_all
  ultimately obtain y where y: "binary64 (sqrt 1000) = Num y" and "0 < y"
    using binary64_positive [of 4 "sqrt 1000"] by auto
  have "binary64 (- 20 / y) \<noteq> Num 1"
  proof
    assume "binary64 (- 20 / y) = Num 1"
    then have "0 < - 20 / y"
      by (rule binary64_sign) simp
    with \<open>0 < y\<close> show False
      by (simp add: divide_less_0_iff zero_less_divide_iff)
  qed
  then show ?thesis
    using \<open>0 < y\<close> unfolding pearson_def s Let_def by (simp add: n y)
qed

text \<open>
  C1. \<open>correlationMatrix\<close> keeps the rows in which the cell of every selected key is a
  finite number, once for the whole matrix, and every cell \<open>(i, j)\<close> of the matrix is
  the Pearson correlation \<open>pearson\<close> of the values that the keys \<open>i\<close> and \<open>j\<close> have in
  those same rows, paired row by row: no cell is computed over rows chosen for its own
  pair of keys. This holds for every rounding of the arithmetic.
\<close>

theorem correlationMatrix_common_subset:
  assumes "i < length keys" and "j < length keys"
  shows "correlationMatrix rnd rows keys ! i ! j =
           (let common = filter (\<lambda>r. \<forall>k \<in> set keys. \<exists>x. r k = Some (JNum (Num x))) rows
            in pearson rnd (map (\<lambda>r. real_of (r (keys ! i))) common)
                 (map (\<lambda>r. real_of (r (keys ! j))) common))"
proof -
  let ?common = "valid_rows rows keys"
  have "keys ! i \<in> set keys" and "keys ! j \<in> set keys"
    using assms by simp_all
  then have "correlationMatrix rnd rows keys ! i ! j =
      corr rnd (map Num (map (\<lambda>r. real_of (r (keys ! i))) ?common))
               (map Num (map (\<lambda>r. real_of (r (keys ! j))) ?common))"
    using assms by (simp only: correlationMatrix_nth column_valid)
  also have "\<dots> = pearson rnd (map (\<lambda>r. real_of (r (keys ! i))) ?common)
                      (map (\<lambda>r. real_of (r (keys ! j))) ?common)"
    by (rule corr_pearson) simp
  finally show ?thesis
    by (simp only: valid_rows_eq Let_def)
qed

text \<open>
  In the table \<open>partial_rows\<close> the series \<open>A\<close> and \<open>B\<close> are numbers in all four rows,
  but \<open>C\<close> is null in the first: with the three keys selected, the cell of \<open>A\<close> and
  \<open>B\<close> is computed over the three common rows only, where the two series lie on a
  line, and is 1 in binary64. With \<open>A\<close> and \<open>B\<close> alone selected, all four rows are
  common and the cell is not 1.
\<close>

theorem correlationMatrix_common_subset_witness:
  "(0::nat) < length [''A'', ''B'', ''C''] \<and> (1::nat) < length [''A'', ''B'', ''C''] \<and>
   length partial_rows = 4 \<and>
   correlationMatrix binary64 partial_rows [''A'', ''B'', ''C''] ! 0 ! 1 = Num 1 \<and>
   correlationMatrix binary64 partial_rows [''A'', ''B''] ! 0 ! 1 \<noteq> Num 1"
  using correlationMatrix_common_subset [of 0 "[''A'', ''B'', ''C'']" 1 binary64 partial_rows]
    correlationMatrix_common_subset [of 0 "[''A'', ''B'']" 1 binary64 partial_rows]
  by (simp add: partial_rows_def pearson_example pearson_outlier)

lemma corr_step_swap:
  "corr_step rnd b a mb ma (swap_acc st) i = swap_acc (corr_step rnd a b ma mb st i)"
  by (cases st) (simp add: corr_step_def Let_def js_mul_commute)

lemma foldl_corr_step_swap:
  "foldl (corr_step rnd b a mb ma) (swap_acc st) is =
   swap_acc (foldl (corr_step rnd a b ma mb) st is)"
  by (induction "is" arbitrary: st) (simp_all add: corr_step_swap)

lemma corr_commute: "corr rnd a b = corr rnd b a"
proof -
  let ?n = "min (length a) (length b)"
  let ?ma = "js_div rnd (foldl (js_add rnd) (Num 0) a) (Num (real ?n))"
  let ?mb = "js_div rnd (foldl (js_add rnd) (Num 0) b) (Num (real ?n))"
  obtain num da db where
    st: "foldl (corr_step rnd a b ?ma ?mb) (Num 0, Num 0, Num 0) [0..<?n] = (num, da, db)"
    by (metis prod_cases3)
  have "foldl (corr_step rnd b a ?mb ?ma) (swap_acc (Num 0, Num 0, Num 0)) [0..<?n] =
        swap_acc (num, da, db)"
    using foldl_corr_step_swap [of rnd b a ?mb ?ma "(Num 0, Num 0, Num 0)" "[0..<?n]"] st
    by simp
  then have st': "foldl (corr_step rnd b a ?mb ?ma) (Num 0, Num 0, Num 0) [0..<?n] = (num, db, da)"
    by simp
  show ?thesis
    using st st' by (simp add: corr_def Let_def min.commute js_mul_commute)
qed

text \<open>
  C3. The matrix is symmetric: the cells \<open>(i, j)\<close> and \<open>(j, i)\<close> are the same number,
  or both NaN (the equality of the model, in which NaN is equal to itself). This holds
  for every rounding of the arithmetic, since the product of two numbers does not
  depend on their order.
\<close>

theorem correlationMatrix_symmetric:
  assumes "i < length keys" and "j < length keys"
  shows "correlationMatrix rnd rows keys ! i ! j = correlationMatrix rnd rows keys ! j ! i"
proof -
  have "correlationMatrix rnd rows keys ! i ! j =
          corr rnd (map (\<lambda>r. as_number (r (keys ! i))) (valid_rows rows keys))
                   (map (\<lambda>r. as_number (r (keys ! j))) (valid_rows rows keys))"
    using assms by (rule correlationMatrix_nth)
  also have "\<dots> =
          corr rnd (map (\<lambda>r. as_number (r (keys ! j))) (valid_rows rows keys))
                   (map (\<lambda>r. as_number (r (keys ! i))) (valid_rows rows keys))"
    by (rule corr_commute)
  also have "\<dots> = correlationMatrix rnd rows keys ! j ! i"
    using assms by (simp only: correlationMatrix_nth)
  finally show ?thesis .
qed

text \<open>
  In the example table, with the keys \<open>A\<close> and \<open>B\<close>, the two cells off the diagonal
  are both 1 in binary64.
\<close>

theorem correlationMatrix_symmetric_witness:
  "(0::nat) < length [''A'', ''B''] \<and> (1::nat) < length [''A'', ''B''] \<and>
   correlationMatrix binary64 [row1, row2, row3] [''A'', ''B''] ! 0 ! 1 = Num 1 \<and>
   correlationMatrix binary64 [row1, row2, row3] [''A'', ''B''] ! 1 ! 0 = Num 1"
proof -
  have "correlationMatrix binary64 [row1, row2, row3] [''A'', ''B''] ! 0 ! 1 =
        corr binary64 (map Num [1, 2, 3]) (map Num [2, 4, 6])"
    by (simp add: correlationMatrix_def columns_def valid_rows_def Let_def row1_def row2_def row3_def)
  also have "\<dots> = Num 1"
    using corr_pearson [of "[1, 2, 3]" "[2, 4, 6]" binary64] by (simp add: pearson_example)
  finally show ?thesis
    using correlationMatrix_symmetric [of 0 "[''A'', ''B'']" 1 binary64 "[row1, row2, row3]"]
    by simp
qed

section \<open>The correlation in binary64 arithmetic\<close>

text \<open>
  A list of reals is constant exactly when its centered sum of squares is zero.
\<close>

lemma sum_squares_nonneg: "0 \<le> (\<Sum>x\<leftarrow>xs. (x - m)\<^sup>2)" for m :: real
  by (induction xs) simp_all

lemma sum_squares_zero_iff: "(\<Sum>x\<leftarrow>xs. (x - m)\<^sup>2) = 0 \<longleftrightarrow> (\<forall>x \<in> set xs. x = m)"
  for m :: real
  by (induction xs) (simp_all add: add_nonneg_eq_0_iff sum_squares_nonneg)

lemma css_zero_iff: "css xs = 0 \<longleftrightarrow> (\<forall>x \<in> set xs. x = mean xs)"
  by (simp add: css_def sum_squares_zero_iff)

lemma mean_replicate: "0 < n \<Longrightarrow> mean (replicate n c) = c"
  by (simp add: mean_def sum_list_replicate)

lemma css_zero_iff_constant: "css xs = 0 \<longleftrightarrow> (\<forall>x \<in> set xs. \<forall>y \<in> set xs. x = y)"
proof
  assume "css xs = 0"
  then have "\<forall>x \<in> set xs. x = mean xs"
    by (simp add: css_zero_iff)
  then show "\<forall>x \<in> set xs. \<forall>y \<in> set xs. x = y"
    by metis
next
  assume c: "\<forall>x \<in> set xs. \<forall>y \<in> set xs. x = y"
  show "css xs = 0"
  proof (cases xs)
    case Nil
    then show ?thesis by (simp add: css_def)
  next
    case (Cons z zs)
    with c have "\<forall>x \<in> set xs. x = z" by simp
    then have "xs = replicate (length xs) z"
      by (simp add: replicate_length_same)
    moreover have "0 < length xs" using Cons by simp
    ultimately have "mean xs = z"
      using mean_replicate by metis
    with \<open>\<forall>x \<in> set xs. x = z\<close> show ?thesis
      by (simp add: css_zero_iff)
  qed
qed

lemma css_replicate: "css (replicate n c) = 0"
  by (simp add: css_zero_iff_constant)

text \<open>
  The two means, the loop and the denominator of \<open>corr\<close> on the columns of
  \<open>tenth_rows\<close>.
\<close>

lemma corr_tenth_means:
  "js_div binary64 (foldl (js_add binary64) (Num 0) [Num tenth, Num tenth, Num tenth]) (Num (real 3)) =
     Num (7205759403792795 / 72057594037927936)"
  "js_div binary64 (foldl (js_add binary64) (Num 0) [Num 1, Num 2, Num 3]) (Num (real 3)) = Num 2"
  by (simp_all add: tenth_def binary64_values)

lemma corr_tenth_loop: "foldl (corr_step binary64 [Num tenth, Num tenth, Num tenth] [Num 1, Num 2, Num 3]
    (Num (7205759403792795 / 72057594037927936)) (Num 2)) (Num 0, Num 0, Num 0) [0..<3] =
    (Num 0, Num (3 / 5192296858534827628530496329220096), Num 2)"
  by (simp add: corr_step_def js_sub_def tenth_def binary64_values upt_rec)

lemma corr_tenth_den: "\<exists>y. js_sqrt binary64 (js_mul binary64 (Num (3 / 5192296858534827628530496329220096)) (Num 2)) = Num y \<and> 0 < y"
proof -
  let ?v = "3 / 2596148429267413814265248164610048 :: real"
  have "(2 powi (- 55))\<^sup>2 \<le> ?v"
    by (simp add: power2_eq_square)
  then have lo: "2 powi (- 55) \<le> sqrt ?v"
    by (rule real_le_rsqrt)
  have "?v < (2 powi (- 54))\<^sup>2"
    by (simp add: power2_eq_square)
  then have hi: "sqrt ?v < 2 powi (- 55 + 1)"
    by (intro real_less_lsqrt) simp_all
  have "\<exists>y. binary64 (sqrt ?v) = Num y \<and> 0 < y"
    using lo hi by (rule binary64_positive) simp_all
  then show ?thesis
    by (simp add: binary64_values)
qed

lemma corr_tenth: "corr binary64 [Num tenth, Num tenth, Num tenth] [Num 1, Num 2, Num 3] = Num 0"
proof -
  obtain y where y: "js_sqrt binary64 (js_mul binary64 (Num (3 / 5192296858534827628530496329220096)) (Num 2)) = Num y"
    and "0 < y"
    using corr_tenth_den by blast
  then have "js_div binary64 (Num 0) (Num y) = Num 0" and "\<not> js_strict_eq (Num y) (Num 0)"
    by (simp_all add: binary64_zero js_strict_eq_def)
  moreover have m: "min (length [Num tenth, Num tenth, Num tenth]) (length [Num 1, Num 2, Num 3 :: jsnum]) = 3"
    by simp
  have "corr binary64 [Num tenth, Num tenth, Num tenth] [Num 1, Num 2, Num 3] =
          (if js_strict_eq (Num y) (Num 0) then NaN else js_div binary64 (Num 0) (Num y))"
    unfolding corr_def Let_def m corr_tenth_means corr_tenth_loop prod.case y by simp
  ultimately show ?thesis
    by (simp only: if_False)
qed

text \<open>
  C2 fails in the arithmetic of the language. In the table \<open>tenth_rows\<close> the series
  \<open>A\<close> is constant (0.1 at each of the three dates, all three rows valid), so its
  centered sum of squares is zero and the claim asks for NaN. In binary64 the sum
  \<open>0.1 + 0.1 + 0.1\<close> is rounded, and the mean computed from it is the next number above
  0.1: every deviation \<open>a[i] - ma\<close> is \<open>- 2 ^ -56\<close> instead of 0, \<open>da\<close> and \<open>den\<close> are
  positive, the guard \<open>den === 0\<close> does not fire, and the cell of \<open>A\<close> and \<open>B\<close> is the
  number 0.
\<close>

theorem correlationMatrix_constant_tenth:
  "length (valid_rows tenth_rows [''A'', ''B'']) = 3 \<and>
   map (\<lambda>r. real_of (r ''A'')) (valid_rows tenth_rows [''A'', ''B'']) = [tenth, tenth, tenth] \<and>
   css [tenth, tenth, tenth] = 0 \<and>
   correlationMatrix binary64 tenth_rows [''A'', ''B''] ! 0 ! 1 = Num 0"
proof -
  have v: "valid_rows tenth_rows [''A'', ''B''] = tenth_rows"
    by (simp add: valid_rows_def tenth_rows_def)
  have a: "map (\<lambda>r. as_number (r ''A'')) tenth_rows = [Num tenth, Num tenth, Num tenth]"
    and b: "map (\<lambda>r. as_number (r ''B'')) tenth_rows = [Num 1, Num 2, Num 3]"
    and r: "map (\<lambda>r. real_of (r ''A'')) tenth_rows = [tenth, tenth, tenth]"
    and l: "length tenth_rows = 3"
    by (simp_all add: tenth_rows_def)
  have "css (replicate 3 tenth) = 0"
    by (rule css_replicate)
  then have c: "css [tenth, tenth, tenth] = 0"
    by (simp add: numeral_3_eq_3)
  have "correlationMatrix binary64 tenth_rows [''A'', ''B''] ! 0 ! 1 =
        corr binary64 [Num tenth, Num tenth, Num tenth] [Num 1, Num 2, Num 3]"
    using correlationMatrix_nth [of 0 "[''A'', ''B'']" 1 binary64 tenth_rows]
    by (simp add: v a b)
  then show ?thesis
    by (simp add: v r l c corr_tenth)
qed

text \<open>
  The centered sum of squares of a column that is not empty is the result of an
  addition: when it is finite, it is a binary64 number.
\<close>

lemma js_add_Num:
  assumes "js_add rnd s t = Num d"
  obtains z where "rnd z = Num d"
  using assms by (cases s; cases t) auto

lemma centered_squares_rounded:
  assumes "centered_squares rnd xs = Num d" and "xs \<noteq> []"
  obtains z where "rnd z = Num d"
proof -
  let ?qs = "map (\<lambda>d. js_mul rnd d d) (deviations rnd xs)"
  have "?qs \<noteq> []"
    using assms(2) by (simp add: deviations_def)
  then obtain q qs where "?qs = qs @ [q]"
    by (metis rev_exhaust)
  then have "centered_squares rnd xs = js_add rnd (foldl (js_add rnd) (Num 0) qs) q"
    by (simp add: centered_squares_def rounded_sum_def)
  with assms(1) show ?thesis
    using that by (auto elim: js_add_Num)
qed

lemma pearson_self_binary64:
  assumes n: "3 \<le> length xs" and d: "centered_squares binary64 xs = Num d"
    and lo: "2 powi (- 511) \<le> d" and hi: "d < 2 ^ 512"
  shows "pearson binary64 xs xs = Num 1"
proof -
  have "xs \<noteq> []"
    using n by auto
  with d obtain z where "binary64 z = Num d"
    by (rule centered_squares_rounded)
  then have den: "js_sqrt binary64 (js_mul binary64 (Num d) (Num d)) = Num d"
    using lo hi by (rule binary64_sqrt_square_result)
  have "0 < (2::real) powi (- 511)"
    by (rule zero_less_power_int) simp
  with lo have d0: "d \<noteq> 0"
    by linarith
  then have "js_div binary64 (Num d) (Num d) = Num 1"
    by (simp add: binary64_one)
  then show ?thesis
    unfolding pearson_def centered_products_self d den Let_def using n d0 by simp
qed

text \<open>
  C4, amended. In binary64, when at least three rows are valid for all keys, the column
  of the key \<open>i\<close> is not constant over them, and the centered sum of squares \<open>d\<close> that
  \<open>corr\<close> accumulates for that column (\<open>da\<close> in the source) is a finite number with
  \<open>2 powi (- 511) \<le> d\<close> and \<open>d < 2 ^ 512\<close>, the diagonal cell \<open>(i, i)\<close> is 1: the
  numerator of the cell is \<open>d\<close> too, \<open>d * d\<close> lies in the normal range of binary64,
  and the denominator \<open>Math.sqrt(d * d)\<close> is \<open>d\<close> again. The cell is 1 for every
  column whose \<open>d\<close> is in that range; the statement leaves out the constant columns,
  for which the specification asks for NaN.
\<close>

theorem correlationMatrix_diagonal:
  assumes "i < length keys"
    and "3 \<le> length (valid_rows rows keys)"
    and "\<exists>r \<in> set (valid_rows rows keys). \<exists>r' \<in> set (valid_rows rows keys).
           real_of (r (keys ! i)) \<noteq> real_of (r' (keys ! i))"
    and "centered_squares binary64 (map (\<lambda>r. real_of (r (keys ! i))) (valid_rows rows keys)) = Num d"
    and "2 powi (- 511) \<le> d" and "d < 2 ^ 512"
  shows "correlationMatrix binary64 rows keys ! i ! i = Num 1"
proof -
  let ?a = "map (\<lambda>r. real_of (r (keys ! i))) (valid_rows rows keys)"
  have "keys ! i \<in> set keys"
    using assms(1) by simp
  then have "correlationMatrix binary64 rows keys ! i ! i = corr binary64 (map Num ?a) (map Num ?a)"
    using assms(1) by (simp only: correlationMatrix_nth column_valid)
  also have "\<dots> = pearson binary64 ?a ?a"
    by (rule corr_pearson) simp
  also have "\<dots> = Num 1"
    using _ assms(4,5,6) by (rule pearson_self_binary64) (use assms(2) in simp)
  finally show ?thesis .
qed

text \<open>
  The column 1, 2, 4 in binary64. The mean \<open>7 / 3\<close>, the squares of the three
  deviations and two of the sums are rounded; the centered sum of squares is
  4.666666666666666.
\<close>

lemma centered_squares_doubling:
  "centered_squares binary64 [1, 2, 4] = Num (2627099782632789 / 562949953421312)"
proof -
  have n: "binary64 7 = Num 7"
    using binary64_nat [of 7] by simp
  have m: "binary64 (7 / 3) = Num (5254199565265579 / 2251799813685248)"
    by (subst binary64_normal [of 1]) (simp_all add: round_half_even_def Let_def)
  have d: "binary64 (- (3002399751580331 / 2251799813685248)) = Num (- (3002399751580331 / 2251799813685248))"
    "binary64 (- (750599937895083 / 2251799813685248)) = Num (- (750599937895083 / 2251799813685248))"
    "binary64 (3752999689475413 / 2251799813685248) = Num (3752999689475413 / 2251799813685248)"
    by (rule binary64_exact [of _ "- 6004799503160662" 0], simp_all)
      (rule binary64_exact [of _ "- 6004799503160664" "- 2"], simp_all,
       rule binary64_exact [of _ 7505999378950826 0], simp_all)
  have q1: "binary64 (- (3002399751580331 / 2251799813685248) * - (3002399751580331 / 2251799813685248)) =
      Num (4003199668773775 / 2251799813685248)"
    by (subst binary64_normal [of 0]) (simp_all add: round_half_even_def Let_def)
  have q2: "binary64 (- (750599937895083 / 2251799813685248) * - (750599937895083 / 2251799813685248)) =
      Num (2001599834386889 / 18014398509481984)"
    by (subst binary64_normal [of "- 4"]) (simp_all add: round_half_even_def Let_def)
  have q3: "binary64 (3752999689475413 / 2251799813685248 * (3752999689475413 / 2251799813685248)) =
      Num (6254999482459021 / 2251799813685248)"
    by (subst binary64_normal [of 1]) (simp_all add: round_half_even_def Let_def)
  have s1: "binary64 (4003199668773775 / 2251799813685248) = Num (4003199668773775 / 2251799813685248)"
    by (rule binary64_exact [of _ 8006399337547550 0]) simp_all
  have s2: "binary64 (4003199668773775 / 2251799813685248 + 2001599834386889 / 18014398509481984) =
      Num (531674956009017 / 281474976710656)"
    by (subst binary64_normal [of 0]) (simp_all add: round_half_even_def Let_def)
  have s3: "binary64 (531674956009017 / 281474976710656 + 6254999482459021 / 2251799813685248) =
      Num (2627099782632789 / 562949953421312)"
    by (subst binary64_normal [of 2]) (simp_all add: round_half_even_def Let_def)
  show ?thesis
    using m d q1 q2 q3 s1 s2 s3
    by (simp add: centered_squares_def deviations_def rounded_mean_def rounded_sum_def js_sub_def
        binary64_values n)
qed

text \<open>
  In the table \<open>doubling_rows\<close> the column of \<open>A\<close> is 1, 2, 4: the diagonal cell
  is 1, although the square of the centered sum of squares is rounded once more.
\<close>

theorem correlationMatrix_diagonal_witness:
  "(0::nat) < length [''A''] \<and> 3 \<le> length (valid_rows doubling_rows [''A'']) \<and>
   real_of ((doubling_rows ! 0) ([''A''] ! 0)) \<noteq> real_of ((doubling_rows ! 1) ([''A''] ! 0)) \<and>
   centered_squares binary64
     (map (\<lambda>r. real_of (r ([''A''] ! 0))) (valid_rows doubling_rows [''A''])) =
     Num (2627099782632789 / 562949953421312) \<and>
   2 powi (- 511) \<le> (2627099782632789 / 562949953421312 :: real) \<and>
   (2627099782632789 / 562949953421312 :: real) < 2 ^ 512 \<and>
   correlationMatrix binary64 doubling_rows [''A''] ! 0 ! 0 = Num 1"
proof -
  have v: "valid_rows doubling_rows [''A''] = doubling_rows"
    by (simp add: valid_rows_def doubling_rows_def)
  have a: "map (\<lambda>r. real_of (r ([''A''] ! 0))) doubling_rows = [1, 2, 4]"
    and n: "length doubling_rows = 3"
    by (simp_all add: doubling_rows_def)
  have d: "real_of ((doubling_rows ! 0) ([''A''] ! 0)) \<noteq> real_of ((doubling_rows ! 1) ([''A''] ! 0))"
    by (simp add: doubling_rows_def)
  have "doubling_rows ! 0 \<in> set doubling_rows" and "doubling_rows ! 1 \<in> set doubling_rows"
    using n by simp_all
  with d have c: "\<exists>r \<in> set (valid_rows doubling_rows [''A'']). \<exists>r' \<in> set (valid_rows doubling_rows [''A'']).
           real_of (r ([''A''] ! 0)) \<noteq> real_of (r' ([''A''] ! 0))"
    unfolding v by blast
  have "(2::real) powi (- 511) \<le> 2 powi 0"
    by (intro power_int_increasing) simp_all
  then have l: "2 powi (- 511) \<le> (2627099782632789 / 562949953421312 :: real)"
    by simp
  have h: "(2627099782632789 / 562949953421312 :: real) < 2 ^ 512"
    by simp
  have "correlationMatrix binary64 doubling_rows [''A''] ! 0 ! 0 = Num 1"
    using correlationMatrix_diagonal [of 0 "[''A'']" doubling_rows "2627099782632789 / 562949953421312"] c l h
    unfolding v a n centered_squares_doubling by simp
  then show ?thesis
    using d l h unfolding v a n centered_squares_doubling by simp
qed

text \<open>
  The centered sum of squares \<open>d\<close> and the correlation with itself of four columns.
  For the constant column \<open>d\<close> is 0, and the denominator is 0. For the column of the
  largest values \<open>d\<close> is infinite. For the column \<open>- 2 ^ 256\<close>, 0, \<open>2 ^ 256\<close> it is
  \<open>2 ^ 513\<close>: the denominator \<open>Math.sqrt(d * d)\<close> is infinite and the quotient is 0.
  For the column 0, \<open>1 / 2 ^ 257\<close>, \<open>3 / 2 ^ 257\<close> it is less than
  \<open>2 powi (- 511)\<close>: \<open>d * d\<close> is rounded to a multiple of \<open>2 powi (- 1074)\<close>, its
  square root is the binary64 number next to \<open>d\<close>, and the quotient is the number
  next to 1.
\<close>

lemma pearson_const:
  "centered_squares binary64 [5, 5, 5] = Num 0"
  "pearson binary64 [5, 5, 5] [5, 5, 5] = NaN"
proof -
  have n: "binary64 5 = Num 5" "binary64 10 = Num 10" "binary64 15 = Num 15"
    using binary64_nat [of 5] binary64_nat [of 10] binary64_nat [of 15]
    by simp_all
  show c: "centered_squares binary64 [5, 5, 5] = Num 0"
    by (simp add: centered_squares_def deviations_def rounded_mean_def rounded_sum_def js_sub_def
        binary64_zero n)
  show "pearson binary64 [5, 5, 5] [5, 5, 5] = NaN"
    unfolding pearson_def centered_products_self c by (simp add: binary64_zero)
qed

lemma pearson_big:
  "centered_squares binary64 [- (2 ^ 512), 0, 2 ^ 512] = PosInf"
  "pearson binary64 [- (2 ^ 512), 0, 2 ^ 512] [- (2 ^ 512), 0, 2 ^ 512] = NaN"
proof -
  have v: "binary64 (2 ^ 512) = Num (2 ^ 512)" "binary64 (- (2 ^ 512)) = Num (- (2 ^ 512))"
    by (rule binary64_exact [of _ "2 ^ 52" 512], simp_all)
      (rule binary64_exact [of _ "- (2 ^ 52)" 512], simp_all)
  have o: "binary64 (2 ^ 512 * 2 ^ 512) = PosInf"
    using binary64_overflow by simp
  show c: "centered_squares binary64 [- (2 ^ 512), 0, 2 ^ 512] = PosInf"
    using v o
    by (simp add: centered_squares_def deviations_def rounded_mean_def rounded_sum_def js_sub_def
        binary64_zero)
  show "pearson binary64 [- (2 ^ 512), 0, 2 ^ 512] [- (2 ^ 512), 0, 2 ^ 512] = NaN"
    unfolding pearson_def centered_products_self c by (simp add: signed_inf_def)
qed

lemma pearson_large:
  "centered_squares binary64 [- (2 ^ 256), 0, 2 ^ 256] = Num (2 ^ 513)"
  "pearson binary64 [- (2 ^ 256), 0, 2 ^ 256] [- (2 ^ 256), 0, 2 ^ 256] = Num 0"
proof -
  have v: "binary64 (2 ^ 256) = Num (2 ^ 256)" "binary64 (- (2 ^ 256)) = Num (- (2 ^ 256))"
    "binary64 (2 ^ 512) = Num (2 ^ 512)" "binary64 (2 ^ 513) = Num (2 ^ 513)"
    by (rule binary64_exact [of _ "2 ^ 52" 256], simp_all)
      (rule binary64_exact [of _ "- (2 ^ 52)" 256], simp_all,
       rule binary64_exact [of _ "2 ^ 52" 512], simp_all,
       rule binary64_exact [of _ "2 ^ 52" 513], simp_all)
  have o: "binary64 (2 ^ 513 * 2 ^ 513) = PosInf"
    by (subst binary64_normal [of 1026]) (simp_all add: signed_inf_def round_half_even_def Let_def)
  show c: "centered_squares binary64 [- (2 ^ 256), 0, 2 ^ 256] = Num (2 ^ 513)"
    using v
    by (simp add: centered_squares_def deviations_def rounded_mean_def rounded_sum_def js_sub_def
        binary64_zero)
  show "pearson binary64 [- (2 ^ 256), 0, 2 ^ 256] [- (2 ^ 256), 0, 2 ^ 256] = Num 0"
    unfolding pearson_def centered_products_self c using o by simp
qed

lemma pearson_small:
  "centered_squares binary64 [0, 1 / 2 ^ 257, 3 / 2 ^ 257] = Num (5254199565265579 / 2 ^ 564)"
  "pearson binary64 [0, 1 / 2 ^ 257, 3 / 2 ^ 257] [0, 1 / 2 ^ 257, 3 / 2 ^ 257] =
     Num (4503599627370495 / 4503599627370496)"
proof -
  have v: "binary64 (1 / 2 ^ 257) = Num (1 / 2 ^ 257)" "binary64 (1 / 2 ^ 255) = Num (1 / 2 ^ 255)"
    by (rule binary64_exact [of _ "2 ^ 52" "- 257"], simp_all add: power_int_minus)
      (rule binary64_exact [of _ "2 ^ 52" "- 255"], simp_all add: power_int_minus)
  have m: "binary64 (1 / 2 ^ 255 / 3) = Num (6004799503160661 / 2 ^ 309)"
    by (subst binary64_normal [of "- 257"]) (simp_all add: round_half_even_def Let_def power_int_minus)
  have d: "binary64 (- (6004799503160661 / 2 ^ 309)) = Num (- (6004799503160661 / 2 ^ 309))"
    "binary64 (- (1501199875790165 / 2 ^ 309)) = Num (- (1501199875790165 / 2 ^ 309))"
    "binary64 (7505999378950827 / 2 ^ 309) = Num (7505999378950827 / 2 ^ 309)"
    by (rule binary64_exact [of _ "- 6004799503160661" "- 257"], simp_all add: power_int_minus)
      (rule binary64_exact [of _ "- 6004799503160660" "- 259"], simp_all add: power_int_minus,
       rule binary64_exact [of _ 7505999378950827 "- 257"], simp_all add: power_int_minus)
  have q: "binary64 (6004799503160661 / 2 ^ 309 * (6004799503160661 / 2 ^ 309)) =
      Num (2001599834386887 / 2 ^ 564)"
    "binary64 (1501199875790165 / 2 ^ 309 * (1501199875790165 / 2 ^ 309)) =
      Num (8006399337547545 / 2 ^ 570)"
    "binary64 (7505999378950827 / 2 ^ 309 * (7505999378950827 / 2 ^ 309)) =
      Num (6254999482459023 / 2 ^ 565)"
    by (subst binary64_normal [of "- 514"], simp_all add: round_half_even_def Let_def power_int_minus)
      (subst binary64_normal [of "- 518"], simp_all add: round_half_even_def Let_def power_int_minus,
       subst binary64_normal [of "- 513"], simp_all add: round_half_even_def Let_def power_int_minus)
  have s: "binary64 (2001599834386887 / 2 ^ 564) = Num (2001599834386887 / 2 ^ 564)"
    "binary64 (2001599834386887 / 2 ^ 564 + 8006399337547545 / 2 ^ 570) =
      Num (4253399648072135 / 2 ^ 565)"
    "binary64 (4253399648072135 / 2 ^ 565 + 6254999482459023 / 2 ^ 565) =
      Num (5254199565265579 / 2 ^ 564)"
    by (rule binary64_exact [of _ 8006399337547548 "- 514"], simp_all add: power_int_minus)
      (subst binary64_normal [of "- 514"], simp_all add: round_half_even_def Let_def power_int_minus,
       subst binary64_normal [of "- 512"], simp_all add: round_half_even_def Let_def power_int_minus)
  show c: "centered_squares binary64 [0, 1 / 2 ^ 257, 3 / 2 ^ 257] = Num (5254199565265579 / 2 ^ 564)"
    using v m d q s
    by (simp add: centered_squares_def deviations_def rounded_mean_def rounded_sum_def js_sub_def
        binary64_zero)
  have y: "binary64 (5254199565265579 / 2 ^ 564 * (5254199565265579 / 2 ^ 564)) =
      Num (1532474873202461 / 2 ^ 1074)"
  proof -
    let ?z = "5254199565265579 / 2 ^ 564 * (5254199565265579 / 2 ^ 564) :: real"
    have "?z \<noteq> 0"
      by simp
    moreover have "\<bar>?z\<bar> < 2 powi (- 1022)"
      by (simp add: power_int_minus)
    ultimately have "binary64 ?z =
        Num (of_int (round_half_even (?z / 2 powi (- 1074))) * 2 powi (- 1074))"
      by (rule binary64_subnormal)
    moreover have "round_half_even (?z / 2 powi (- 1074)) = 1532474873202461"
      by (simp add: round_half_even_def Let_def power_int_minus)
    ultimately show ?thesis
      by (simp add: power_int_minus)
  qed
  have r: "binary64 (sqrt (1532474873202461 / 2 ^ 1074)) = Num (5254199565265580 / 2 ^ 564)"
    by (rule binary64_sqrt_window [of _ 5254199565265580 "- 512"])
      (simp_all add: power_int_minus power2_eq_square)
  have t: "binary64 (5254199565265579 / 2 ^ 564 / (5254199565265580 / 2 ^ 564)) =
      Num (4503599627370495 / 4503599627370496)"
    by (subst binary64_normal [of "- 1"]) (simp_all add: round_half_even_def Let_def power_int_minus)
  show "pearson binary64 [0, 1 / 2 ^ 257, 3 / 2 ^ 257] [0, 1 / 2 ^ 257, 3 / 2 ^ 257] =
     Num (4503599627370495 / 4503599627370496)"
    unfolding pearson_def centered_products_self c using y r t by simp
qed

lemma outside_range:
  "(5254199565265579 / 2 ^ 564 :: real) < 2 powi (- 511)" "(2 ^ 512 :: real) \<le> 2 ^ 513"
  by (simp_all add: power_int_minus)

lemma correlationMatrix_single:
  assumes "list_all (\<lambda>r. r ''A'' = Some (JNum (Num (real_of (r ''A''))))) rows"
  shows "correlationMatrix rnd rows [''A''] ! 0 ! 0 =
         pearson rnd (map (\<lambda>r. real_of (r ''A'')) rows) (map (\<lambda>r. real_of (r ''A'')) rows)"
    and "valid_rows rows [''A''] = rows"
proof -
  have f: "finite_number (r ''A'')" if "r \<in> set rows" for r
  proof -
    from that assms have "r ''A'' = Some (JNum (Num (real_of (r ''A''))))"
      by (simp add: list_all_iff)
    then show ?thesis
      by (simp add: finite_number_iff) blast
  qed
  then show v: "valid_rows rows [''A''] = rows"
    by (simp add: valid_rows_def)
  have col: "map (\<lambda>r. as_number (r ([''A''] ! 0))) (valid_rows rows [''A'']) =
      map Num (map (\<lambda>r. real_of (r ([''A''] ! 0))) (valid_rows rows [''A'']))"
    by (rule column_valid) simp
  have "correlationMatrix rnd rows [''A''] ! 0 ! 0 =
      corr rnd (map (\<lambda>r. as_number (r ([''A''] ! 0))) (valid_rows rows [''A'']))
               (map (\<lambda>r. as_number (r ([''A''] ! 0))) (valid_rows rows [''A'']))"
    by (rule correlationMatrix_nth) simp_all
  also have "\<dots> =
      corr rnd (map Num (map (\<lambda>r. real_of (r ([''A''] ! 0))) (valid_rows rows [''A''])))
               (map Num (map (\<lambda>r. real_of (r ([''A''] ! 0))) (valid_rows rows [''A''])))"
    by (simp only: col)
  also have "\<dots> = pearson rnd (map (\<lambda>r. real_of (r ([''A''] ! 0))) (valid_rows rows [''A'']))
                 (map (\<lambda>r. real_of (r ([''A''] ! 0))) (valid_rows rows [''A'']))"
    by (rule corr_pearson) simp
  finally show "correlationMatrix rnd rows [''A''] ! 0 ! 0 =
         pearson rnd (map (\<lambda>r. real_of (r ''A'')) rows) (map (\<lambda>r. real_of (r ''A'')) rows)"
    by (simp add: v)
qed

text \<open>
  C4 as stated fails. Each of the four tables has three valid points. The diagonal cell
  is NaN for the constant series 5, 5, 5, for which the denominator is 0. It is NaN for
  the series \<open>- 2 ^ 512\<close>, 0, \<open>2 ^ 512\<close>, 0 for the series \<open>- 2 ^ 256\<close>, 0,
  \<open>2 ^ 256\<close>, and 0.9999999999999998 for the series 0, \<open>1 / 2 ^ 257\<close>,
  \<open>3 / 2 ^ 257\<close>: none of the three is constant, and their centered sums of squares
  are on either side of the range in which the cell is 1.
\<close>

theorem correlationMatrix_diagonal_counterexample:
  "(0::nat) < length [''A''] \<and>
   3 \<le> length (valid_rows const_rows [''A'']) \<and>
   correlationMatrix binary64 const_rows [''A''] ! 0 ! 0 = NaN \<and>
   3 \<le> length (valid_rows big_rows [''A'']) \<and>
   correlationMatrix binary64 big_rows [''A''] ! 0 ! 0 = NaN \<and>
   3 \<le> length (valid_rows large_rows [''A'']) \<and>
   correlationMatrix binary64 large_rows [''A''] ! 0 ! 0 = Num 0 \<and>
   3 \<le> length (valid_rows small_rows [''A'']) \<and>
   correlationMatrix binary64 small_rows [''A''] ! 0 ! 0 = Num (4503599627370495 / 4503599627370496)"
proof -
  have c: "list_all (\<lambda>r. r ''A'' = Some (JNum (Num (real_of (r ''A''))))) const_rows"
    "map (\<lambda>r. real_of (r ''A'')) const_rows = [5, 5, 5]"
    by (simp_all add: const_rows_def)
  have b: "list_all (\<lambda>r. r ''A'' = Some (JNum (Num (real_of (r ''A''))))) big_rows"
    "map (\<lambda>r. real_of (r ''A'')) big_rows = [- (2 ^ 512), 0, 2 ^ 512]"
    by (simp_all add: big_rows_def)
  have g: "list_all (\<lambda>r. r ''A'' = Some (JNum (Num (real_of (r ''A''))))) large_rows"
    "map (\<lambda>r. real_of (r ''A'')) large_rows = [- (2 ^ 256), 0, 2 ^ 256]"
    by (simp_all add: large_rows_def)
  have s: "list_all (\<lambda>r. r ''A'' = Some (JNum (Num (real_of (r ''A''))))) small_rows"
    "map (\<lambda>r. real_of (r ''A'')) small_rows = [0, 1 / 2 ^ 257, 3 / 2 ^ 257]"
    by (simp_all add: small_rows_def)
  have l: "length const_rows = 3" "length big_rows = 3" "length large_rows = 3" "length small_rows = 3"
    by (simp_all add: const_rows_def big_rows_def large_rows_def small_rows_def)
  show ?thesis
    unfolding correlationMatrix_single [OF c(1)] correlationMatrix_single [OF b(1)]
      correlationMatrix_single [OF g(1)] correlationMatrix_single [OF s(1)]
      c(2) b(2) g(2) s(2) pearson_const pearson_big pearson_large pearson_small l
    by simp
qed

section \<open>Properties of the resampling\<close>

lemma map_fst_bucket_push:
  "map fst (bucket_push y v bs) = (if y \<in> set (map fst bs) then map fst bs else map fst bs @ [y])"
  by (induction bs) force+

lemma map_of_bucket_push:
  "map_of (bucket_push y v bs) =
     (map_of bs)(y \<mapsto> (case map_of bs y of None \<Rightarrow> [v] | Some arr \<Rightarrow> arr @ [v]))"
  by (induction bs) (auto simp: fun_eq_iff)

lemma buckets_of_snoc:
  "buckets_of key (points @ [p]) = bucket_push (key p) (val p) (buckets_of key points)"
  by (simp add: buckets_of_def)

lemma buckets_of_keys:
  "set (map fst (buckets_of key points)) = key ` set points \<and>
   distinct (map fst (buckets_of key points))"
proof (induction points rule: rev_induct)
  case Nil
  then show ?case by (simp add: buckets_of_def)
next
  case (snoc p points)
  then show ?case
    by (auto simp: buckets_of_snoc map_fst_bucket_push)
qed

lemma buckets_of_content:
  "map_of (buckets_of key points) y =
     (if y \<in> key ` set points then Some (map val (filter (\<lambda>p. key p = y) points)) else None)"
proof (induction points rule: rev_induct)
  case Nil
  then show ?case by (simp add: buckets_of_def)
next
  case (snoc p points)
  show ?case
  proof (cases "key p = y")
    case True
    have "filter (\<lambda>p. key p = y) points = []" if "y \<notin> key ` set points"
      using that by (auto simp: filter_empty_conv)
    then show ?thesis
      using True snoc by (simp add: buckets_of_snoc map_of_bucket_push)
  next
    case False
    then show ?thesis
      using snoc by (auto simp: buckets_of_snoc map_of_bucket_push)
  qed
qed

lemma set_buckets_of:
  "set (buckets_of key points) =
     (\<lambda>y. (y, map val (filter (\<lambda>p. key p = y) points))) ` key ` set points"
proof -
  have d: "distinct (map fst (buckets_of key points))"
    using buckets_of_keys by blast
  have "(y, arr) \<in> set (buckets_of key points) \<longleftrightarrow>
        y \<in> key ` set points \<and> arr = map val (filter (\<lambda>p. key p = y) points)" for y arr
    using map_of_eq_Some_iff [OF d, of y arr]
    by (auto simp: buckets_of_content split: if_splits)
  then show ?thesis
    by (auto simp: image_iff)
qed

lemma last_bucket:
  assumes "y \<in> key ` set points"
  shows "last (map val (filter (\<lambda>p. key p = y) points)) = val (last (filter (\<lambda>p. key p = y) points))"
proof -
  from assms have "filter (\<lambda>p. key p = y) points \<noteq> []"
    by (auto simp: filter_empty_conv)
  then show ?thesis by (simp add: last_map)
qed

lemma toMonthly_buckets:
  "toMonthly points =
     sort_key date (map (\<lambda>(ym, arr). \<lparr>date = ym @ ''-28'', val = last arr\<rparr>)
       (buckets_of (\<lambda>p. take 7 (date p)) points))"
  by (simp add: toMonthly_def)

lemma sort_distinct: "distinct xs \<Longrightarrow> sort xs = sorted_list_of_set (set xs)"
  for xs :: "'a::linorder list"
  by (simp add: sorted_list_of_set_sort_remdups distinct_remdups_id)

lemma map_insort_key: "map f (insort_key f x xs) = insort (f x) (map f xs)"
  by (induction xs) simp_all

lemma map_sort_key: "map f (sort_key f xs) = sort (map f xs)"
  by (induction xs) (simp_all add: map_insort_key)

text \<open>
  C5, amended. \<open>toMonthly\<close> returns one point per year-month (the first seven
  characters of the date) that occurs in the input, dated at that year-month followed
  by \<open>-28\<close>, in ascending order of the dates; the value of the point is the value of the
  last input point of that year-month, in the order of the input. It is not the mean
  of the values: the function has no average.
\<close>

theorem toMonthly_last:
  "map date (toMonthly points) =
     sorted_list_of_set ((\<lambda>p. take 7 (date p) @ ''-28'') ` set points) \<and>
   set (toMonthly points) =
     (\<lambda>ym. \<lparr>date = ym @ ''-28'',
             val = val (last (filter (\<lambda>p. take 7 (date p) = ym) points))\<rparr>) `
       (\<lambda>p. take 7 (date p)) ` set points"
proof
  let ?key = "\<lambda>p. take 7 (date p)"
  let ?B = "buckets_of ?key points"
  have "map date (toMonthly points) = sort (map (\<lambda>y. y @ ''-28'') (map fst ?B))"
    by (simp add: toMonthly_buckets map_sort_key o_def split_def)
  moreover have "distinct (map (\<lambda>y. y @ ''-28'') (map fst ?B))"
    using buckets_of_keys [of ?key points] by (simp add: distinct_map inj_on_def)
  moreover have "set (map (\<lambda>y. y @ ''-28'') (map fst ?B)) = (\<lambda>p. take 7 (date p) @ ''-28'') ` set points"
    using buckets_of_keys [of ?key points] by (simp only: set_map) (auto simp: image_iff)
  ultimately show "map date (toMonthly points) =
     sorted_list_of_set ((\<lambda>p. take 7 (date p) @ ''-28'') ` set points)"
    by (simp only: sort_distinct)
next
  let ?key = "\<lambda>p. take 7 (date p)"
  show "set (toMonthly points) =
     (\<lambda>ym. \<lparr>date = ym @ ''-28'',
             val = val (last (filter (\<lambda>p. take 7 (date p) = ym) points))\<rparr>) `
       (\<lambda>p. take 7 (date p)) ` set points"
    by (simp add: toMonthly_buckets set_buckets_of image_image last_bucket [of _ ?key] cong: image_cong)
qed

text \<open>
  The daily points of the example give three monthly points, in order of date; the
  point of January 2020 has the value of the later of the two points of that month.
\<close>

theorem toMonthly_last_witness:
  "map date (toMonthly daily) = [''2019-03-28'', ''2020-01-28'', ''2020-02-28''] \<and>
   map val (toMonthly daily) = [Num 7, Num 3, Num 4]"
proof -
  have "toMonthly daily =
      [\<lparr>date = ''2019-03-28'', val = Num 7\<rparr>, \<lparr>date = ''2020-01-28'', val = Num 3\<rparr>,
       \<lparr>date = ''2020-02-28'', val = Num 4\<rparr>]"
    by (simp add: toMonthly_def buckets_of_def daily_def)
  then show ?thesis
    using toMonthly_last [of daily] by simp
qed

text \<open>
  C5 as stated fails: for two points in January 2020 with the values 1 and 3 the
  monthly point has the value 3, and the mean of the two values is 2.
\<close>

theorem toMonthly_average_counterexample:
  "toMonthly january = [\<lparr>date = ''2020-01-28'', val = Num 3\<rparr>] \<and> mean [1, 3] = 2"
  by (simp add: toMonthly_def buckets_of_def january_def mean_def)

lemma bucket_push_fresh: "y \<notin> fst ` set bs \<Longrightarrow> bucket_push y v bs = bs @ [(y, [v])]"
  by (induction bs) auto

lemma buckets_of_distinct:
  "distinct (map key xs) \<Longrightarrow> buckets_of key xs = map (\<lambda>q. (key q, [val q])) xs"
proof (induction xs rule: rev_induct)
  case Nil
  then show ?case by (simp add: buckets_of_def)
next
  case (snoc p xs)
  then have "key p \<notin> fst ` set (map (\<lambda>q. (key q, [val q])) xs)"
    by (auto simp: image_iff)
  with snoc show ?case
    by (simp add: buckets_of_snoc bucket_push_fresh)
qed

lemma distinct_map_sort_key:
  "distinct (map g (sort_key f xs)) \<longleftrightarrow> distinct (map g xs)"
  by (simp add: distinct_map)

lemma toAnnual_buckets:
  "toAnnual rnd points Last =
     sort_key date (map (\<lambda>(y, arr). \<lparr>date = y @ ''-12-31'', val = last arr\<rparr>)
       (buckets_of (\<lambda>p. take 4 (date p)) points))"
  by (simp add: toAnnual_def)

text \<open>
  C8. For a series whose dates have at least four characters (as every date of the form
  YYYY-MM-DD has), resampling to annual with the last value is idempotent: the second
  pass returns its input. This holds for every rounding, as no arithmetic is done.
\<close>

theorem toAnnual_idempotent:
  assumes "list_all (\<lambda>p. 4 \<le> length (date p)) points"
  shows "toAnnual rnd (toAnnual rnd points Last) Last = toAnnual rnd points Last"
proof -
  let ?key = "\<lambda>p. take 4 (date p)"
  let ?mk = "\<lambda>(y, arr). \<lparr>date = y @ ''-12-31'', val = last arr\<rparr>"
  let ?B = "buckets_of ?key points"
  let ?A = "toAnnual rnd points Last"
  have A: "?A = sort_key date (map ?mk ?B)"
    by (rule toAnnual_buckets)
  have len: "length y = 4" if "y \<in> set (map fst ?B)" for y
  proof -
    from that have "y \<in> ?key ` set points"
      using buckets_of_keys [of ?key points] by simp
    then show ?thesis
      using assms by (auto simp: list_all_iff)
  qed
  have key_mk: "?key (?mk b) = fst b" if "b \<in> set ?B" for b
  proof -
    from that have "length (fst b) = 4"
      by (intro len) simp
    then show ?thesis
      by (cases b) simp
  qed
  have km: "map ?key (map ?mk ?B) = map fst ?B"
    using key_mk by (simp add: map_idI cong: map_cong)
  have "distinct (map fst ?B)"
    using buckets_of_keys [of ?key points] by blast
  then have "distinct (map ?key (map ?mk ?B))"
    by (simp only: km)
  then have dist: "distinct (map ?key ?A)"
    unfolding A by (simp only: distinct_map_sort_key)
  have shape: "\<lparr>date = ?key q @ ''-12-31'', val = last [val q]\<rparr> = q" if "q \<in> set ?A" for q
  proof -
    from that obtain b where b: "b \<in> set ?B" and q: "q = ?mk b"
      unfolding A by auto
    from key_mk [OF b] q have "?key q = fst b"
      by simp
    then show ?thesis
      using q by (cases b) simp
  qed
  have "toAnnual rnd ?A Last = sort_key date (map ?mk (buckets_of ?key ?A))"
    by (rule toAnnual_buckets)
  also have "buckets_of ?key ?A = map (\<lambda>q. (?key q, [val q])) ?A"
    using dist by (rule buckets_of_distinct)
  also have "map ?mk (map (\<lambda>q. (?key q, [val q])) ?A) = ?A"
    using shape by (simp add: map_idI)
  also have "sort_key date ?A = ?A"
    unfolding A by (rule sort_key_id_if_sorted) (rule sorted_sort_key)
  finally show ?thesis .
qed

text \<open>
  Daily points of 2019 and 2020: two annual points, and the same two again.
\<close>

theorem toAnnual_idempotent_witness:
  "list_all (\<lambda>p. 4 \<le> length (date p)) daily \<and>
   toAnnual binary64 daily Last =
     [\<lparr>date = ''2019-12-31'', val = Num 7\<rparr>, \<lparr>date = ''2020-12-31'', val = Num 4\<rparr>] \<and>
   toAnnual binary64 (toAnnual binary64 daily Last) Last =
     [\<lparr>date = ''2019-12-31'', val = Num 7\<rparr>, \<lparr>date = ''2020-12-31'', val = Num 4\<rparr>]"
proof -
  have h: "list_all (\<lambda>p. 4 \<le> length (date p)) daily"
    by (simp add: daily_def)
  have a: "toAnnual binary64 daily Last =
     [\<lparr>date = ''2019-12-31'', val = Num 7\<rparr>, \<lparr>date = ''2020-12-31'', val = Num 4\<rparr>]"
    by (simp add: toAnnual_def buckets_of_def daily_def)
  show ?thesis
    using toAnnual_idempotent [OF h, of binary64] h a by simp
qed

section \<open>Properties of the year-over-year change\<close>

lemma foldl_yoy_step:
  "foldl (yoy_step rnd tn pts) out is =
   out @ map (\<lambda>i. \<lparr>date = date (pts ! i), val = yoy_value rnd (val (pts ! (i - 1))) (val (pts ! i))\<rparr>)
           (filter (\<lambda>i. yoy_test rnd tn (pts ! (i - 1)) (pts ! i)) is)"
  by (induction "is" arbitrary: out) (simp_all add: yoy_step_def)

text \<open>
  The loop, for every rounding and every conversion: one point for each index from 1
  that passes the test, in the order of the indices.
\<close>

lemma yoyPct_eq:
  "yoyPct rnd tn pts =
   map (\<lambda>i. \<lparr>date = date (pts ! i), val = yoy_value rnd (val (pts ! (i - 1))) (val (pts ! i))\<rparr>)
     (filter (\<lambda>i. yoy_test rnd tn (pts ! (i - 1)) (pts ! i)) [1..<length pts])"
  by (simp add: yoyPct_def foldl_yoy_step)

lemma digit_val_le: "is_digit c \<Longrightarrow> digit_val c \<le> 9"
  by (auto simp: is_digit_def digit_val_def)

lemma decimal_snoc: "decimal (s @ [c]) = 10 * decimal s + digit_val c"
  by (simp add: decimal_def)

lemma decimal_less: "list_all is_digit s \<Longrightarrow> decimal s < 10 ^ length s"
proof (induction s rule: rev_induct)
  case Nil
  then show ?case by (simp add: decimal_def)
next
  case (snoc c s)
  then have "decimal s < 10 ^ length s" and "digit_val c \<le> 9"
    by (simp_all add: digit_val_le)
  then show ?case
    by (simp add: decimal_snoc)
qed

lemma year_less: "has_year p \<Longrightarrow> year p < 10000"
  using decimal_less [of "take 4 (date p)"]
  by (auto simp: has_year_def year_def min_def split: if_splits)

text \<open>On dates that start with a year, the test of the loop compares the years.\<close>

lemma yoy_test_years:
  assumes "rounds_years rnd" and "reads_years tn" and "has_year p" and "has_year q"
  shows "yoy_test rnd tn p q \<longleftrightarrow> year q = year p + 1"
proof -
  have p: "tn (take 4 (date p)) = Num (real (year p))"
    using assms(2,3) by (simp add: reads_years_def has_year_def year_def)
  have q: "tn (take 4 (date q)) = Num (real (year q))"
    using assms(2,4) by (simp add: reads_years_def has_year_def year_def)
  have "year p + 1 \<le> 10000"
    using year_less [OF assms(3)] by simp
  then have "rnd (real (year p + 1)) = Num (real (year p + 1))"
    using assms(1) unfolding rounds_years_def by blast
  then have "js_add rnd (Num (real (year p))) (Num 1) = Num (real (year p + 1))"
    by (simp add: add.commute)
  then show ?thesis
    by (simp add: yoy_test_def p q js_strict_eq_def Let_def) linarith
qed

lemma rounds_years_binary64: "rounds_years binary64"
  unfolding rounds_years_def
proof (intro allI impI)
  fix n :: nat
  assume "n \<le> 10000"
  then have "n < 2 ^ 53"
    by simp
  then show "binary64 (real n) = Num (real n)"
    by (rule binary64_nat)
qed

lemma reads_years_digitsToNumber: "reads_years digitsToNumber"
  by (auto simp: reads_years_def digitsToNumber_def)

text \<open>
  C6. For a series whose dates all start with a four-digit year, \<open>yoyPct\<close> returns, in
  order, one point for each index \<open>i\<close> from 1 at which the year of point \<open>i\<close> is the
  year of point \<open>i - 1\<close> plus one: its date is the date of point \<open>i\<close> and its value
  is \<open>(current / previous - 1) * 100\<close> in the arithmetic of the language. No other
  point is returned: none for a pair of points whose years are not one apart, and none
  for the first point, which is the current point of no pair.
\<close>

theorem yoyPct_consecutive_years:
  assumes "rounds_years rnd" and "reads_years toNumber" and "list_all has_year pts"
  shows "yoyPct rnd toNumber pts =
           map (\<lambda>i. \<lparr>date = date (pts ! i),
                     val = js_mul rnd
                             (js_sub rnd (js_div rnd (val (pts ! i)) (val (pts ! (i - 1)))) (Num 1))
                             (Num 100)\<rparr>)
             (filter (\<lambda>i. year (pts ! i) = year (pts ! (i - 1)) + 1) [1..<length pts])"
proof -
  have "yoy_test rnd toNumber (pts ! (i - 1)) (pts ! i) \<longleftrightarrow> year (pts ! i) = year (pts ! (i - 1)) + 1"
    if "i \<in> set [1..<length pts]" for i
  proof -
    from that have "i < length pts" and "i - 1 < length pts"
      by auto
    with assms(3) have "has_year (pts ! i)" and "has_year (pts ! (i - 1))"
      by (simp_all add: list_all_length)
    then show ?thesis
      using assms(1,2) by (simp add: yoy_test_years)
  qed
  then have "filter (\<lambda>i. yoy_test rnd toNumber (pts ! (i - 1)) (pts ! i)) [1..<length pts] =
             filter (\<lambda>i. year (pts ! i) = year (pts ! (i - 1)) + 1) [1..<length pts]"
    by (rule filter_cong [OF refl])
  then show ?thesis
    by (simp add: yoyPct_eq yoy_value_def)
qed

text \<open>
  The annual points for 2019, 2020 and 2022 give exactly one point, for 2020. Its value
  \<open>(110 / 100 - 1) * 100\<close> is 10.000000000000009 in binary64: the quotient is rounded.
\<close>

theorem yoyPct_consecutive_years_witness:
  "rounds_years binary64 \<and> reads_years digitsToNumber \<and> list_all has_year gap_series \<and>
   yoyPct binary64 digitsToNumber gap_series =
     [\<lparr>date = ''2020-12-31'', val = Num (5629499534213125 / 562949953421312)\<rparr>]"
proof -
  have h: "list_all has_year gap_series"
    by (simp add: gap_series_def has_year_def is_digit_def)
  have y: "map year gap_series = [2019, 2020, 2022]"
    by (simp add: gap_series_def year_def decimal_def digit_val_def)
  have "[1..<length gap_series] = [1, 2]"
    by (simp add: gap_series_def upt_rec)
  then show ?thesis
    using yoyPct_consecutive_years [OF rounds_years_binary64 reads_years_digitsToNumber h] h y
    by (simp add: rounds_years_binary64 reads_years_digitsToNumber js_sub_def binary64_growth
        gap_series_def)
qed

lemma yoy_value_zero:
  "yoy_value rnd (Num 0) c = (case js_sign c of Some s \<Rightarrow> signed_inf s | None \<Rightarrow> NaN)"
  by (cases c) (simp_all add: yoy_value_def js_sub_def signed_inf_def)

text \<open>
  C10. When the years of two consecutive points are one apart and the value of the
  earlier point is 0, \<open>yoyPct\<close> still returns the point dated at the later point's date.
  Its value \<open>(current / 0 - 1) * 100\<close> is not finite: it is NaN when the later value is
  0 (or NaN), and an infinity otherwise, whatever the rounding of the division, the
  subtraction and the product: nothing in the loop looks at the divisor.
\<close>

theorem yoyPct_zero_previous:
  assumes "rounds_years rnd" and "reads_years toNumber"
    and "0 < i" and "i < length pts"
    and "has_year (pts ! (i - 1))" and "has_year (pts ! i)"
    and "year (pts ! i) = year (pts ! (i - 1)) + 1"
    and "val (pts ! (i - 1)) = Num 0"
  shows "\<lparr>date = date (pts ! i), val = yoy_value rnd (Num 0) (val (pts ! i))\<rparr>
           \<in> set (yoyPct rnd toNumber pts) \<and>
         \<not> isFinite (yoy_value rnd (Num 0) (val (pts ! i))) \<and>
         (yoy_value rnd (Num 0) (val (pts ! i)) = NaN \<longleftrightarrow>
            val (pts ! i) = Num 0 \<or> val (pts ! i) = NaN) \<and>
         (yoy_value rnd (Num 0) (val (pts ! i)) \<in> {PosInf, NegInf, NaN})"
proof -
  have "yoy_test rnd toNumber (pts ! (i - 1)) (pts ! i)"
    using assms by (simp add: yoy_test_years)
  moreover have "i \<in> set [1..<length pts]"
    using assms(3,4) by simp
  ultimately have "i \<in> set (filter (\<lambda>i. yoy_test rnd toNumber (pts ! (i - 1)) (pts ! i)) [1..<length pts])"
    by simp
  then have "\<lparr>date = date (pts ! i), val = yoy_value rnd (val (pts ! (i - 1))) (val (pts ! i))\<rparr>
               \<in> set (yoyPct rnd toNumber pts)"
    unfolding yoyPct_eq set_map by (rule imageI)
  then have "\<lparr>date = date (pts ! i), val = yoy_value rnd (Num 0) (val (pts ! i))\<rparr>
               \<in> set (yoyPct rnd toNumber pts)"
    using assms(8) by simp
  moreover have "\<not> isFinite (yoy_value rnd (Num 0) c)"
    and "yoy_value rnd (Num 0) c = NaN \<longleftrightarrow> c = Num 0 \<or> c = NaN"
    and "yoy_value rnd (Num 0) c \<in> {PosInf, NegInf, NaN}" for c
    by (cases c; simp add: yoy_value_zero signed_inf_def)+
  ultimately show ?thesis
    by blast
qed

text \<open>
  From the value 0 in 2019 to 110 in 2020: the point for 2020 is infinite.
\<close>

theorem yoyPct_zero_previous_witness:
  "rounds_years binary64 \<and> reads_years digitsToNumber \<and>
   (0::nat) < 1 \<and> 1 < length zero_series \<and>
   has_year (zero_series ! 0) \<and> has_year (zero_series ! 1) \<and>
   year (zero_series ! 1) = year (zero_series ! 0) + 1 \<and>
   val (zero_series ! 0) = Num 0 \<and>
   \<lparr>date = ''2020-12-31'', val = PosInf\<rparr> \<in> set (yoyPct binary64 digitsToNumber zero_series)"
proof -
  have h: "has_year (zero_series ! 0)" "has_year (zero_series ! 1)"
    by (simp_all add: zero_series_def has_year_def is_digit_def)
  have y: "year (zero_series ! 1) = year (zero_series ! 0) + 1"
    by (simp add: zero_series_def year_def decimal_def digit_val_def)
  have l: "1 < length zero_series" and z: "val (zero_series ! 0) = Num 0"
    by (simp_all add: zero_series_def)
  have v: "yoy_value binary64 (Num 0) (val (zero_series ! 1)) = PosInf"
    and d: "date (zero_series ! 1) = ''2020-12-31''"
    by (simp_all add: zero_series_def yoy_value_zero signed_inf_def)
  show ?thesis
    using yoyPct_zero_previous [of binary64 digitsToNumber 1 zero_series]
      rounds_years_binary64 reads_years_digitsToNumber h y l z v d
    by simp
qed

section \<open>Properties of the alignment\<close>

lemma set_add_props:
  "set (set_add d ds) = insert d (set ds)" "distinct ds \<Longrightarrow> distinct (set_add d ds)"
  by (auto simp: set_add_def)

lemma foldl_set_add:
  "set (foldl (\<lambda>ds p. set_add (date p) ds) ds arr) = set ds \<union> date ` set arr \<and>
   (distinct ds \<longrightarrow> distinct (foldl (\<lambda>ds p. set_add (date p) ds) ds arr))"
  by (induction arr arbitrary: ds) (simp_all add: set_add_props)

lemma foldl_foldl_set_add:
  "set (foldl (\<lambda>ds arr. foldl (\<lambda>ds p. set_add (date p) ds) ds arr) ds arrs) =
     set ds \<union> (\<Union>arr \<in> set arrs. date ` set arr) \<and>
   (distinct ds \<longrightarrow>
      distinct (foldl (\<lambda>ds arr. foldl (\<lambda>ds p. set_add (date p) ds) ds arr) ds arrs))"
proof (induction arrs arbitrary: ds)
  case Nil
  then show ?case by simp
next
  case (Cons arr arrs)
  show ?case
    using Cons [of "foldl (\<lambda>ds p. set_add (date p) ds) ds arr"] foldl_set_add [of ds arr]
    by auto
qed

lemma all_dates_set: "set (all_dates series) = dates_of series"
  using foldl_foldl_set_add [of "[]" "map snd series"]
  by (auto simp: all_dates_def dates_of_def)

lemma all_dates_distinct: "distinct (all_dates series)"
  using foldl_foldl_set_add [of "[]" "map snd series"]
  by (simp add: all_dates_def)

lemma sorted_all_dates: "sort (all_dates series) = sorted_list_of_set (dates_of series)"
  using all_dates_distinct [of series]
  by (simp add: sorted_list_of_set_sort_remdups distinct_remdups_id all_dates_set [symmetric])

lemma foldl_row_other:
  "k \<notin> fst ` set series \<Longrightarrow>
   foldl (\<lambda>row (k, arr). row(k \<mapsto> cell_of arr d)) r series k = r k"
  by (induction series arbitrary: r) (auto simp: split_def)

lemma foldl_row_cell:
  "distinct (map fst series) \<Longrightarrow> (k, arr) \<in> set series \<Longrightarrow>
   foldl (\<lambda>row (k, arr). row(k \<mapsto> cell_of arr d)) r series k = Some (cell_of arr d)"
proof (induction series arbitrary: r)
  case Nil
  then show ?case by simp
next
  case (Cons e series)
  show ?case
  proof (cases "e = (k, arr)")
    case True
    with Cons.prems have k: "k \<notin> fst ` set series"
      by auto
    have "foldl (\<lambda>row (k, arr). row(k \<mapsto> cell_of arr d)) r (e # series) k =
          foldl (\<lambda>row (k, arr). row(k \<mapsto> cell_of arr d)) (r(k \<mapsto> cell_of arr d)) series k"
      using True by simp
    also have "\<dots> = (r(k \<mapsto> cell_of arr d)) k"
      using k by (rule foldl_row_other)
    also have "\<dots> = Some (cell_of arr d)"
      by simp
    finally show ?thesis .
  next
    case False
    with Cons show ?thesis
      by auto
  qed
qed

lemma length_alignByDate: "length (alignByDate series) = card (dates_of series)"
  by (simp add: alignByDate_def Let_def sorted_all_dates dates_of_def)

text \<open>
  C7. \<open>alignByDate\<close> returns one row per date that occurs in some series. The rows are
  in ascending order of the date string: row \<open>i\<close> is made for the \<open>i\<close>-th date of the
  sorted list of all dates, and that date is its property \<open>date\<close> (unless a series is
  itself called \<open>date\<close>, whose cell then takes the place of the date). The cell of a
  series in a row is the value of the first point of the series with exactly the date
  of the row, and null when the series has no such point.
\<close>

theorem alignByDate_outer_join:
  assumes "distinct (map fst series)"
  shows "length (alignByDate series) = card (dates_of series) \<and>
         (''date'' \<notin> fst ` set series \<longrightarrow>
            map (\<lambda>row. row ''date'') (alignByDate series) =
              map (\<lambda>d. Some (JStr d)) (sorted_list_of_set (dates_of series))) \<and>
         (\<forall>i < length (alignByDate series). \<forall>(k, arr) \<in> set series.
            (alignByDate series ! i) k =
              Some (case find (\<lambda>p. date p = sorted_list_of_set (dates_of series) ! i) arr of
                      Some f \<Rightarrow> JNum (val f)
                    | None \<Rightarrow> JNull))"
proof (intro conjI impI allI)
  show "length (alignByDate series) = card (dates_of series)"
    by (rule length_alignByDate)
next
  assume "''date'' \<notin> fst ` set series"
  then show "map (\<lambda>row. row ''date'') (alignByDate series) =
              map (\<lambda>d. Some (JStr d)) (sorted_list_of_set (dates_of series))"
    by (simp add: alignByDate_def Let_def sorted_all_dates make_row_def foldl_row_other)
next
  fix i
  assume "i < length (alignByDate series)"
  then have i: "i < length (sort (all_dates series))"
    by (simp add: alignByDate_def Let_def)
  have row: "alignByDate series ! i = make_row series (sorted_list_of_set (dates_of series) ! i)"
    using i by (simp add: alignByDate_def Let_def sorted_all_dates)
  have "(alignByDate series ! i) k = Some (cell_of arr (sorted_list_of_set (dates_of series) ! i))"
    if "(k, arr) \<in> set series" for k arr
    unfolding row make_row_def using assms that by (rule foldl_row_cell)
  then show "\<forall>(k, arr) \<in> set series.
            (alignByDate series ! i) k =
              Some (case find (\<lambda>p. date p = sorted_list_of_set (dates_of series) ! i) arr of
                      Some f \<Rightarrow> JNum (val f)
                    | None \<Rightarrow> JNull)"
    by (auto simp: cell_of_def)
qed

text \<open>
  Two series over three years, each without a point in one of them: three rows, with a
  null where the point is missing.
\<close>

theorem alignByDate_outer_join_witness:
  "distinct (map fst series_ab) \<and> ''date'' \<notin> fst ` set series_ab \<and>
   length (alignByDate series_ab) = 3 \<and>
   map (\<lambda>row. row ''date'') (alignByDate series_ab) =
     [Some (JStr ''2019-12-31''), Some (JStr ''2020-12-31''), Some (JStr ''2021-12-31'')] \<and>
   map (\<lambda>row. row ''A'') (alignByDate series_ab) =
     [Some (JNum (Num 100)), Some (JNum (Num 110)), Some JNull] \<and>
   map (\<lambda>row. row ''B'') (alignByDate series_ab) =
     [Some JNull, Some (JNum (Num 45)), Some (JNum (Num 47))]"
proof -
  have d: "distinct (map fst series_ab)"
    by (simp add: series_ab_def)
  have s: "sort (all_dates series_ab) = [''2019-12-31'', ''2020-12-31'', ''2021-12-31'']"
    by (simp add: all_dates_def set_add_def series_ab_def)
  have "alignByDate series_ab =
      map (make_row series_ab) [''2019-12-31'', ''2020-12-31'', ''2021-12-31'']"
    by (simp add: alignByDate_def s)
  then show ?thesis
    using alignByDate_outer_join [OF d]
    by (simp add: series_ab_def make_row_def cell_of_def)
qed

section \<open>Properties of the middleware\<close>

lemma split_on_not_Nil: "split_on c s \<noteq> []"
  by (induction s) (auto split: list.splits)

lemma split_on_eq:
  "split_on c s =
     takeWhile (\<lambda>x. x \<noteq> c) s #
     (if c \<in> set s then split_on c (tl (dropWhile (\<lambda>x. x \<noteq> c) s)) else [])"
  by (induction s) (auto split: list.splits simp: split_on_not_Nil)

lemma element_split_on_0: "element (split_on c s) 0 = Some (takeWhile (\<lambda>x. x \<noteq> c) s)"
  by (subst split_on_eq) (simp add: element_def)

lemma element_split_on_1:
  "element (split_on c s) (Suc 0) =
     (if c \<in> set s then Some (takeWhile (\<lambda>x. x \<noteq> c) (tl (dropWhile (\<lambda>x. x \<noteq> c) s))) else None)"
  apply (subst split_on_eq)
  apply (simp add: element_def split_on_not_Nil)
  apply (subst split_on_eq)
  apply simp
  done

lemma authorized_iff:
  "element (split_on (CHR '':'') text) 0 \<noteq> BASIC_AUTH_USER env \<or>
   element (split_on (CHR '':'') text) (Suc 0) \<noteq> BASIC_AUTH_PASS env \<longleftrightarrow>
   \<not> authorized env text"
  by (simp add: authorized_def decoded_user_def decoded_pass_def element_split_on_0
      element_split_on_1)

lemma middleware_eq:
  "middleware decode env req =
     (case credentials req of
        None \<Rightarrow> Response ''Authentication required'' 401
      | Some encoded \<Rightarrow>
          if authorized env (decode encoded) then NextResponse_next
          else Response ''Invalid credentials'' 403)"
proof (cases "authorization req")
  case None
  then show ?thesis by (simp add: middleware_def credentials_def)
next
  case (Some auth)
  define tok where "tok = takeWhile (\<lambda>x. x \<noteq> CHR '' '') (tl (dropWhile (\<lambda>x. x \<noteq> CHR '' '') auth))"
  have cred: "credentials req =
      (if takeWhile (\<lambda>x. x \<noteq> CHR '' '') auth = ''Basic'' \<and> tok \<noteq> [] then Some tok else None)"
    by (simp add: credentials_def Some tok_def Let_def)
  have scheme: "element (split_on (CHR '' '') auth) 0 = Some (takeWhile (\<lambda>x. x \<noteq> CHR '' '') auth)"
    by (rule element_split_on_0)
  show ?thesis
  proof (cases "CHR '' '' \<in> set auth")
    case True
    then have e: "element (split_on (CHR '' '') auth) (Suc 0) = Some tok"
      by (simp add: element_split_on_1 tok_def)
    from True have "auth \<noteq> []" by auto
    then show ?thesis
      using authorized_iff [of "decode tok" env]
      by (auto simp add: middleware_def Some Let_def scheme e cred)
  next
    case False
    then have dw: "dropWhile (\<lambda>x. x \<noteq> CHR '' '') auth = []"
      by (auto simp: dropWhile_eq_Nil_conv)
    have "tok = []"
      unfolding tok_def dw by simp
    moreover have "element (split_on (CHR '' '') auth) (Suc 0) = None"
      using False by (simp add: element_split_on_1)
    ultimately show ?thesis
      by (simp add: middleware_def Some Let_def cred)
  qed
qed

text \<open>
  The three outcomes, in the terms of the code. The middleware answers 401 exactly when
  the request supplies no credentials (no header, a scheme other than \<open>Basic\<close>, or an
  empty encoded part), 403 exactly when it supplies credentials and the user, or the
  decoded text between its first and its second colon, differs from the configured
  one, and passes the request on exactly when both are equal.
\<close>

theorem middleware_status:
  "(middleware decode env req = Response ''Authentication required'' 401 \<longleftrightarrow>
      credentials req = None) \<and>
   (middleware decode env req = Response ''Invalid credentials'' 403 \<longleftrightarrow>
      (\<exists>encoded. credentials req = Some encoded \<and> \<not> authorized env (decode encoded))) \<and>
   (middleware decode env req = NextResponse_next \<longleftrightarrow>
      (\<exists>encoded. credentials req = Some encoded \<and> authorized env (decode encoded)))"
  by (cases "credentials req") (simp_all add: middleware_eq)

theorem middleware_status_witness:
  "middleware decode_example basic_env request_none = Response ''Authentication required'' 401 \<and>
   credentials request_none = None \<and>
   middleware decode_example basic_env request_wrong = Response ''Invalid credentials'' 403 \<and>
   credentials request_wrong = Some ''YWRtaW46d3Jvbmc='' \<and>
   \<not> authorized basic_env (decode_example ''YWRtaW46d3Jvbmc='') \<and>
   middleware decode_example basic_env request_right = NextResponse_next \<and>
   credentials request_right = Some ''YWRtaW46c2VjcmV0'' \<and>
   authorized basic_env (decode_example ''YWRtaW46c2VjcmV0'')"
proof -
  have c: "credentials request_none = None"
    "credentials request_wrong = Some ''YWRtaW46d3Jvbmc=''"
    "credentials request_right = Some ''YWRtaW46c2VjcmV0''"
    by (simp_all add: credentials_def request_none_def request_wrong_def request_right_def)
  have a: "\<not> authorized basic_env (decode_example ''YWRtaW46d3Jvbmc='')"
    "authorized basic_env (decode_example ''YWRtaW46c2VjcmV0'')"
    by (simp_all add: authorized_def basic_env_def decode_example_def decoded_user_def
        decoded_pass_def)
  show ?thesis
    using middleware_status [of decode_example basic_env request_none]
      middleware_status [of decode_example basic_env request_wrong]
      middleware_status [of decode_example basic_env request_right] c a
    by simp
qed

text \<open>
  A password without a colon is compared whole: what the code takes for the password
  is then the password the text supplies.
\<close>

lemma decoded_pass_no_colon:
  assumes "supplied_password text = Some p" and "CHR '':'' \<notin> set p"
  shows "decoded_pass text = Some p"
proof -
  from assms(1) have c: "CHR '':'' \<in> set text"
    by (simp add: supplied_password_def split: if_splits)
  with assms(1) have p: "tl (dropWhile (\<lambda>x. x \<noteq> CHR '':'') text) = p"
    by (simp add: supplied_password_def)
  from assms(2) have "takeWhile (\<lambda>x. x \<noteq> CHR '':'') p = p"
    by (auto simp: takeWhile_eq_all_conv)
  with c show ?thesis
    by (simp only: decoded_pass_def p if_True)
qed

text \<open>
  C9 fails for a password that contains a colon. The request \<open>request_colon\<close> supplies
  credentials, and they decode to \<open>admin:se:cret\<close>: the user and the password are
  exactly the configured ones. \<open>split(':')\<close> cuts the text at every colon and the code
  keeps the first two pieces, so it compares \<open>se\<close> with the password and answers 403.
\<close>

theorem middleware_colon_password:
  "credentials request_colon = Some ''YWRtaW46c2U6Y3JldA=='' \<and>
   decode_example ''YWRtaW46c2U6Y3JldA=='' = ''admin:se:cret'' \<and>
   Some (decoded_user ''admin:se:cret'') = BASIC_AUTH_USER colon_env \<and>
   supplied_password ''admin:se:cret'' = BASIC_AUTH_PASS colon_env \<and>
   middleware decode_example colon_env request_colon = Response ''Invalid credentials'' 403"
proof -
  have c: "credentials request_colon = Some ''YWRtaW46c2U6Y3JldA==''"
    by (simp add: credentials_def request_colon_def)
  have d: "decode_example ''YWRtaW46c2U6Y3JldA=='' = ''admin:se:cret''"
    by (simp add: decode_example_def)
  have u: "Some (decoded_user ''admin:se:cret'') = BASIC_AUTH_USER colon_env"
    by (simp add: colon_env_def decoded_user_def)
  have p: "supplied_password ''admin:se:cret'' = BASIC_AUTH_PASS colon_env"
    by (simp add: colon_env_def supplied_password_def)
  have "\<not> authorized colon_env ''admin:se:cret''"
    by (simp add: authorized_def colon_env_def decoded_user_def decoded_pass_def)
  then have m: "middleware decode_example colon_env request_colon = Response ''Invalid credentials'' 403"
    by (simp add: middleware_eq c d)
  from c d u p m show ?thesis
    by (intro conjI)
qed

text \<open>The request with the configured user and password is not passed on.\<close>

theorem middleware_colon_password_witness:
  "BASIC_AUTH_USER colon_env = Some ''admin'' \<and> BASIC_AUTH_PASS colon_env = Some ''se:cret'' \<and>
   authorization request_colon = Some ''Basic YWRtaW46c2U6Y3JldA=='' \<and>
   middleware decode_example colon_env request_colon \<noteq> NextResponse_next"
  using middleware_colon_password by (simp add: colon_env_def request_colon_def)

end
